theory Spec2Isabelle
  imports Main "HOL-Library.AList"
begin

section \<open>JavaScript built-ins used by the widgets\<close>

text \<open>
  \<^verbatim>\<open>Array.prototype.sort(compare)\<close> is a stable sort: with a consistent comparator its
  result is the one stable sorted permutation of the array, which insertion from the right
  computes. An element goes in front of the first element it does not compare greater than,
  so elements that compare equal keep their order.
\<close>

fun insort_cmp :: "('a \<Rightarrow> 'a \<Rightarrow> int) \<Rightarrow> 'a \<Rightarrow> 'a list \<Rightarrow> 'a list" where
  "insort_cmp cmp x [] = [x]"
| "insort_cmp cmp x (y # ys) = (if cmp x y \<le> 0 then x # y # ys else y # insort_cmp cmp x ys)"

definition js_sort :: "('a \<Rightarrow> 'a \<Rightarrow> int) \<Rightarrow> 'a list \<Rightarrow> 'a list" where
  "js_sort cmp xs = foldr (insort_cmp cmp) xs []"

text \<open>
  A comparator is consistent when "not greater" is total and transitive. The collation
  behind \<^verbatim>\<open>String.prototype.localeCompare\<close> is not part of the repository; the LSM
  functions take it as the parameter \<open>localeCompare\<close>. A collation separates a set of
  keys when it answers 0 for no two different keys of the set (it answers 0 for strings
  that are canonically equivalent, whatever their code units).
\<close>

definition consistent_cmp :: "('a \<Rightarrow> 'a \<Rightarrow> int) \<Rightarrow> bool" where
  "consistent_cmp cmp \<longleftrightarrow>
     (\<forall>a b. cmp a b \<le> 0 \<or> cmp b a \<le> 0) \<and>
     (\<forall>a b c. cmp a b \<le> 0 \<longrightarrow> cmp b c \<le> 0 \<longrightarrow> cmp a c \<le> 0)"

definition separates :: "('a \<Rightarrow> 'a \<Rightarrow> int) \<Rightarrow> 'a set \<Rightarrow> bool" where
  "separates cmp ks \<longleftrightarrow> (\<forall>a\<in>ks. \<forall>b\<in>ks. cmp a b = 0 \<longrightarrow> a = b)"

text \<open>A concrete collation for running the model: code units compared left to right.\<close>

fun codeunit_cmp :: "string \<Rightarrow> string \<Rightarrow> int" where
  "codeunit_cmp [] [] = 0"
| "codeunit_cmp [] (y # ys) = - 1"
| "codeunit_cmp (x # xs) [] = 1"
| "codeunit_cmp (x # xs) (y # ys) =
     (if (of_char x :: nat) < of_char y then - 1
      else if (of_char y :: nat) < of_char x then 1
      else codeunit_cmp xs ys)"

text \<open>
  ECMAScript requires \<^verbatim>\<open>localeCompare\<close> to answer 0 for strings that are canonically
  equivalent under Unicode. The letter U+00E9 (e with acute) and the sequence U+0065 U+0301
  (e, combining acute) are such a pair of different strings; they are written here by
  their UTF-8 bytes. \<open>canonical_cmp\<close> is a collation that honours this equivalence: it
  compares the strings after composing every e with combining acute.
\<close>

definition e_acute :: string where
  "e_acute = [CHR 0xC3, CHR 0xA9]"

definition e_combining_acute :: string where
  "e_combining_acute = [CHR 0x65, CHR 0xCC, CHR 0x81]"

fun compose :: "string \<Rightarrow> string" where
  "compose (a # b # c # s) =
     (if [a, b, c] = [CHR 0x65, CHR 0xCC, CHR 0x81] then CHR 0xC3 # CHR 0xA9 # compose s
      else a # compose (b # c # s))"
| "compose s = s"

definition canonical_cmp :: "string \<Rightarrow> string \<Rightarrow> int" where
  "canonical_cmp a b = codeunit_cmp (compose a) (compose b)"

section \<open>LSM tree widget (LSMTree.tsx)\<close>

record MemTableEntry =
  entry_key :: string
  entry_value :: string
  entry_timestamp :: int

record SSTable =
  sst_id :: "string \<times> int"
  sst_level :: nat
  sst_entries :: "MemTableEntry list"
  sst_size :: nat
  sst_minKey :: string
  sst_maxKey :: string

definition MAX_MEMTABLE_SIZE :: nat where
  "MAX_MEMTABLE_SIZE = 4"

definition LEVEL_MULTIPLIER :: nat where
  "LEVEL_MULTIPLIER = 4"

text \<open>
  The id \<^verbatim>\<open>`sstable-${Date.now()}`\<close> of a table is kept as the prefix and the number. The
  component's state: the activity log and the highlight are display only and are left
  out. A \<^verbatim>\<open>setTimeout\<close> call is returned as a value: the delay in milliseconds and the
  call it will make, with the arguments it captured.
\<close>

record lsm_state =
  memtable :: "MemTableEntry list"
  sstables :: "SSTable list"
  isCompacting :: bool
  writeCount :: nat

datatype lsm_task =
    FlushMemtable "MemTableEntry list"
  | Compact nat "SSTable list"
  | CompactDone nat "SSTable list"

type_synonym lsm_timer = "nat \<times> lsm_task"

definition lsm_init :: lsm_state where
  "lsm_init = \<lparr>memtable = [], sstables = [], isCompacting = False, writeCount = 0\<rparr>"

definition getMaxTablesAtLevel :: "nat \<Rightarrow> nat" where
  "getMaxTablesAtLevel level = (if level = 0 then 2 else LEVEL_MULTIPLIER ^ level)"

definition by_timestamp :: "MemTableEntry \<Rightarrow> MemTableEntry \<Rightarrow> int" where
  "by_timestamp a b = entry_timestamp a - entry_timestamp b"

definition by_key :: "(string \<Rightarrow> string \<Rightarrow> int) \<Rightarrow> MemTableEntry \<Rightarrow> MemTableEntry \<Rightarrow> int" where
  "by_key localeCompare a b = localeCompare (entry_key a) (entry_key b)"

text \<open>
  \<^verbatim>\<open>new Map()\<close> filled with \<^verbatim>\<open>set\<close>: a key keeps the position of its first insertion
  and the value of its last one, which is \<^const>\<open>AList.update\<close> on an association list.
\<close>

definition merge_entries :: "(string \<Rightarrow> string \<Rightarrow> int) \<Rightarrow> SSTable list \<Rightarrow> MemTableEntry list" where
  "merge_entries localeCompare tablesAtLevel =
     (let allEntries = concat (map sst_entries tablesAtLevel);
          sortedEntries = js_sort by_timestamp allEntries;
          entryMap = fold (\<lambda>e m. AList.update (entry_key e) e m) sortedEntries []
      in js_sort (by_key localeCompare) (map snd entryMap))"

definition first_key :: "MemTableEntry list \<Rightarrow> string" where
  "first_key es = (case es of [] \<Rightarrow> [] | e # _ \<Rightarrow> entry_key e)"

definition last_key :: "MemTableEntry list \<Rightarrow> string" where
  "last_key es = (if es = [] then [] else entry_key (last es))"

text \<open>
  \<^verbatim>\<open>compact(level, tables)\<close>: \<open>now\<close> is the value of \<^verbatim>\<open>Date.now()\<close> that names the new
  table. The table list is the argument, not the state: the state is overwritten with the
  list built from it.
\<close>

definition compact ::
  "(string \<Rightarrow> string \<Rightarrow> int) \<Rightarrow> int \<Rightarrow> nat \<Rightarrow> SSTable list \<Rightarrow> lsm_state \<Rightarrow> lsm_state \<times> lsm_timer list" where
  "compact localeCompare now level tables st =
     (let tablesAtLevel = filter (\<lambda>t. sst_level t = level) tables;
          otherTables = filter (\<lambda>t. sst_level t \<noteq> level) tables;
          minTables = (if level = 0 then 2 else getMaxTablesAtLevel level)
      in if length tablesAtLevel < minTables then (st\<lparr>isCompacting := False\<rparr>, [])
         else
           let mergedEntries = merge_entries localeCompare tablesAtLevel;
               newSSTable = \<lparr>sst_id = (''sstable-'', now), sst_level = level + 1,
                              sst_entries = mergedEntries, sst_size = length mergedEntries,
                              sst_minKey = first_key mergedEntries,
                              sst_maxKey = last_key mergedEntries\<rparr>;
               newTables = otherTables @ [newSSTable]
           in (st\<lparr>sstables := newTables, isCompacting := True\<rparr>,
               [(1000, CompactDone level newTables)]))"

text \<open>The timer body at the end of \<^verbatim>\<open>compact\<close>: the cascade to the next level.\<close>

definition compact_done :: "nat \<Rightarrow> SSTable list \<Rightarrow> lsm_state \<Rightarrow> lsm_state \<times> lsm_timer list" where
  "compact_done level newTables st =
     (let nextLevelTables = filter (\<lambda>t. sst_level t = level + 1) newTables;
          nextLevelMax = getMaxTablesAtLevel (level + 1)
      in (st\<lparr>isCompacting := False\<rparr>,
          if length nextLevelTables \<ge> nextLevelMax then [(500, Compact (level + 1) newTables)]
          else []))"

text \<open>
  \<^verbatim>\<open>flushMemtable(entries)\<close>: \<^verbatim>\<open>entries[0].key\<close> is read on a non-empty array only, the
  empty one returns first.
\<close>

definition flushMemtable :: "int \<Rightarrow> MemTableEntry list \<Rightarrow> lsm_state \<Rightarrow> lsm_state \<times> lsm_timer list" where
  "flushMemtable now entries st =
     (if length entries = 0 then (st, [])
      else
        let newSSTable = \<lparr>sst_id = (''sstable-'', now), sst_level = 0,
                           sst_entries = entries, sst_size = length entries,
                           sst_minKey = entry_key (hd entries),
                           sst_maxKey = entry_key (last entries)\<rparr>;
            updatedTables = sstables st @ [newSSTable];
            l0Tables = filter (\<lambda>t. sst_level t = 0) updatedTables
        in (st\<lparr>memtable := [], sstables := updatedTables\<rparr>,
            if length l0Tables \<ge> 2 then [(500, Compact 0 updatedTables)] else []))"

text \<open>\<^verbatim>\<open>write(key, value)\<close>; the name \<open>write\<close> is taken by Isabelle.\<close>

definition lsm_write ::
  "(string \<Rightarrow> string \<Rightarrow> int) \<Rightarrow> int \<Rightarrow> string \<Rightarrow> string \<Rightarrow> lsm_state \<Rightarrow> lsm_state \<times> lsm_timer list" where
  "lsm_write localeCompare now k v st =
     (let entry = \<lparr>entry_key = k, entry_value = v, entry_timestamp = now\<rparr>;
          filtered = filter (\<lambda>e. entry_key e \<noteq> k) (memtable st);
          newMemtable = js_sort (by_key localeCompare) (filtered @ [entry])
      in (st\<lparr>memtable := newMemtable, writeCount := writeCount st + 1\<rparr>,
          if length newMemtable \<ge> MAX_MEMTABLE_SIZE then [(500, FlushMemtable newMemtable)]
          else []))"

definition lsm_reset :: "lsm_state \<Rightarrow> lsm_state" where
  "lsm_reset st = st\<lparr>memtable := [], sstables := [], writeCount := 0, isCompacting := False\<rparr>"

text \<open>
  What can happen to the widget: the user writes or resets, or a timer fires. A run applies
  events in order; any timer may fire at any point, which covers every schedule the
  browser can produce.
\<close>

datatype lsm_event =
    EvWrite int string string
  | EvReset
  | EvTimer int lsm_task

fun lsm_step :: "(string \<Rightarrow> string \<Rightarrow> int) \<Rightarrow> lsm_event \<Rightarrow> lsm_state \<Rightarrow> lsm_state" where
  "lsm_step lc (EvWrite now k v) st = fst (lsm_write lc now k v st)"
| "lsm_step lc EvReset st = lsm_reset st"
| "lsm_step lc (EvTimer now (FlushMemtable entries)) st = fst (flushMemtable now entries st)"
| "lsm_step lc (EvTimer now (Compact level tables)) st = fst (compact lc now level tables st)"
| "lsm_step lc (EvTimer now (CompactDone level tables)) st = fst (compact_done level tables st)"

definition lsm_run :: "(string \<Rightarrow> string \<Rightarrow> int) \<Rightarrow> lsm_event list \<Rightarrow> lsm_state" where
  "lsm_run lc evs = fold (lsm_step lc) evs lsm_init"

text \<open>
  What the deduplication of \<^verbatim>\<open>compact\<close> establishes, stated for the proofs: the map
  holds one entry per key of the input, and no input entry under that key is newer.
\<close>

definition latest_per_key :: "MemTableEntry list \<Rightarrow> (string \<times> MemTableEntry) list \<Rightarrow> bool" where
  "latest_per_key xs al \<longleftrightarrow>
     distinct (map fst al) \<and>
     (\<forall>k e. map_of al k = Some e \<longrightarrow>
        entry_key e = k \<and> e \<in> set xs \<and>
        (\<forall>e'\<in>set xs. entry_key e' = k \<longrightarrow> entry_timestamp e' \<le> entry_timestamp e)) \<and>
     fst ` set al = entry_key ` set xs"

text \<open>Three tables for running \<^verbatim>\<open>compact\<close>: two at level 0 that share the key a, one at level 1.\<close>

definition demo_tables :: "SSTable list" where
  "demo_tables =
    [\<lparr>sst_id = (''sstable-'', 10), sst_level = 0,
      sst_entries = [\<lparr>entry_key = ''a'', entry_value = ''1'', entry_timestamp = 1\<rparr>,
                     \<lparr>entry_key = ''c'', entry_value = ''2'', entry_timestamp = 2\<rparr>],
      sst_size = 2, sst_minKey = ''a'', sst_maxKey = ''c''\<rparr>,
     \<lparr>sst_id = (''sstable-'', 11), sst_level = 1,
      sst_entries = [\<lparr>entry_key = ''z'', entry_value = ''0'', entry_timestamp = 0\<rparr>],
      sst_size = 1, sst_minKey = ''z'', sst_maxKey = ''z''\<rparr>,
     \<lparr>sst_id = (''sstable-'', 20), sst_level = 0,
      sst_entries = [\<lparr>entry_key = ''a'', entry_value = ''3'', entry_timestamp = 3\<rparr>,
                     \<lparr>entry_key = ''b'', entry_value = ''4'', entry_timestamp = 4\<rparr>],
      sst_size = 2, sst_minKey = ''a'', sst_maxKey = ''b''\<rparr>]"

subsection \<open>The timers in time\<close>

text \<open>
  The timers of the widget in time. A pending timer is its due time in milliseconds and
  the call it makes: \<^verbatim>\<open>write(key, value)\<close> for the timers of \<^verbatim>\<open>loadSampleData\<close>, or one
  of the calls above. Timers fire in the order of their due times, and in the order they
  were set when these are equal. The clock \<^verbatim>\<open>Date.now()\<close> is the due time of the timer
  that runs.
\<close>

datatype lsm_call = CallWrite string string | CallTask lsm_task

type_synonym lsm_pending = "(nat \<times> lsm_call) list"

fun add_timer :: "nat \<times> lsm_call \<Rightarrow> lsm_pending \<Rightarrow> lsm_pending" where
  "add_timer t [] = [t]"
| "add_timer t (p # ps) = (if fst t < fst p then t # p # ps else p # add_timer t ps)"

fun run_call ::
  "(string \<Rightarrow> string \<Rightarrow> int) \<Rightarrow> int \<Rightarrow> lsm_call \<Rightarrow> lsm_state \<Rightarrow> lsm_state \<times> lsm_timer list" where
  "run_call lc now (CallWrite k v) st = lsm_write lc now k v st"
| "run_call lc now (CallTask (FlushMemtable entries)) st = flushMemtable now entries st"
| "run_call lc now (CallTask (Compact level tables)) st = compact lc now level tables st"
| "run_call lc now (CallTask (CompactDone level tables)) st = compact_done level tables st"

text \<open>The state and the pending timers after the next \<open>n\<close> timers have fired.\<close>

fun fire ::
  "(string \<Rightarrow> string \<Rightarrow> int) \<Rightarrow> nat \<Rightarrow> lsm_pending \<Rightarrow> lsm_state \<Rightarrow> lsm_state \<times> lsm_pending" where
  "fire lc 0 pending st = (st, pending)"
| "fire lc (Suc n) [] st = (st, [])"
| "fire lc (Suc n) ((due, c) # pending) st =
     (case run_call lc (int due) c st of
        (st', timers) \<Rightarrow>
          fire lc n
            (fold add_timer (map (\<lambda>(delay, task). (due + delay, CallTask task)) timers) pending)
            st')"

text \<open>\<^verbatim>\<open>loadSampleData\<close>, clicked at time \<open>click\<close>: eight timers, 400 ms apart.\<close>

definition lsm_samples :: "(string \<times> string) list" where
  "lsm_samples =
     [(''user:1'', ''Alice''), (''user:2'', ''Bob''), (''user:3'', ''Charlie''),
      (''order:1'', ''Pizza''), (''order:2'', ''Burger''), (''user:1'', ''Alicia''),
      (''order:3'', ''Sushi''), (''user:4'', ''Diana'')]"

definition loadSampleData :: "nat \<Rightarrow> lsm_pending" where
  "loadSampleData click =
     map (\<lambda>(i, (k, v)). (click + i * 400, CallWrite k v)) (zip [0..<length lsm_samples] lsm_samples)"

text \<open>
  What the widget shows of a state: the key and value of the entries of the memtable, and
  for every table its level and the key and value of its entries.
\<close>

definition table_view :: "SSTable \<Rightarrow> nat \<times> (string \<times> string) list" where
  "table_view t = (sst_level t, map (\<lambda>e. (entry_key e, entry_value e)) (sst_entries t))"

definition lsm_view :: "lsm_state \<Rightarrow> (string \<times> string) list \<times> (nat \<times> (string \<times> string) list) list" where
  "lsm_view st = (map (\<lambda>e. (entry_key e, entry_value e)) (memtable st), map table_view (sstables st))"

text \<open>
  The widget, first rendered empty, after its next \<open>n\<close> timers: with one click on Load
  Sample Data (at time 0), and with a second click 200 ms after the first.
\<close>

definition load_once :: "nat \<Rightarrow> lsm_state \<times> lsm_pending" where
  "load_once n = fire codeunit_cmp n (loadSampleData 0) lsm_init"

definition load_twice :: "nat \<Rightarrow> lsm_state \<times> lsm_pending" where
  "load_twice n = fire codeunit_cmp n (fold add_timer (loadSampleData 200) (loadSampleData 0)) lsm_init"

section \<open>B+ tree widget (the two BPlusTree components)\<close>

text \<open>
  \<^verbatim>\<open>interface BPlusNode { id; keys; children; isLeaf; next? }\<close>. The \<^verbatim>\<open>id\<close> is a random
  label for the renderer. \<^verbatim>\<open>next\<close> is written at a leaf split and the renderer only tests
  it for presence; no function below reads it. Both are left out. Keys are the integers
  \<^verbatim>\<open>parseInt\<close> delivers.
\<close>

datatype BPlusNode = BPlusNode (keys: "int list") (children: "BPlusNode list") (isLeaf: bool)

datatype js_error = TypeError

definition MAX_KEYS :: nat where
  "MAX_KEYS = 3"

definition createLeafNode :: "int list \<Rightarrow> BPlusNode" where
  "createLeafNode ks = BPlusNode ks [] True"

definition createInternalNode :: "int list \<Rightarrow> BPlusNode list \<Rightarrow> BPlusNode" where
  "createInternalNode ks cs = BPlusNode ks cs False"

fun cloneNode :: "BPlusNode \<Rightarrow> BPlusNode" where
  "cloneNode (BPlusNode ks cs leaf) = BPlusNode ks (map cloneNode cs) leaf"

text \<open>\<^verbatim>\<open>Array.prototype.findIndex\<close>: the first index whose element passes, or -1.\<close>

fun findIndex :: "('a \<Rightarrow> bool) \<Rightarrow> 'a list \<Rightarrow> int" where
  "findIndex P [] = - 1"
| "findIndex P (x # xs) =
     (if P x then 0 else (let r = findIndex P xs in if r = - 1 then - 1 else r + 1))"

text \<open>\<^verbatim>\<open>xs.splice(i, 0, x)\<close>: insert at index \<open>i\<close>, at the end when \<open>i\<close> is past it.\<close>

definition splice_in :: "nat \<Rightarrow> 'a \<Rightarrow> 'a list \<Rightarrow> 'a list" where
  "splice_in i x xs = take i xs @ [x] @ drop i xs"

text \<open>The comparator \<^verbatim>\<open>(a, b) => a - b\<close>.\<close>

definition numeric :: "int \<Rightarrow> int \<Rightarrow> int" where
  "numeric a b = a - b"

definition child_index :: "int list \<Rightarrow> int \<Rightarrow> nat" where
  "child_index ks key =
     (let childIndex = findIndex (\<lambda>k. key < k) ks
      in if childIndex = - 1 then length ks else nat childIndex)"

lemma size_nth_children: "i < length cs \<Longrightarrow> size (cs ! i) < Suc (size_list size cs)"
proof (induction cs arbitrary: i)
  case Nil
  then show ?case by simp
next
  case (Cons c cs)
  show ?case
  proof (cases i)
    case 0
    then show ?thesis by simp
  next
    case (Suc j)
    with Cons.prems have "j < length cs" by simp
    from Cons.IH[OF this] Suc show ?thesis by simp
  qed
qed

text \<open>
  \<^verbatim>\<open>insertRecursive(node, key)\<close>, the same text in both components. The source assigns to
  \<^verbatim>\<open>node.keys\<close> and \<^verbatim>\<open>node.children\<close> and returns \<^verbatim>\<open>{ newNode, promotedKey }\<close>; here the
  node as it is after the call is returned in front of that pair. A child index beyond the
  children array reads \<^verbatim>\<open>undefined\<close>, and \<^verbatim>\<open>undefined.isLeaf\<close> throws: the result is
  \<open>None\<close>. \<^verbatim>\<open>Math.ceil(n / 2)\<close> is \<open>(n + 1) div 2\<close>, \<^verbatim>\<open>Math.floor(n / 2)\<close> is \<open>n div 2\<close>.
\<close>

function insertRecursive ::
  "BPlusNode \<Rightarrow> int \<Rightarrow> (BPlusNode \<times> BPlusNode option \<times> int option) option" where
  "insertRecursive (BPlusNode ks cs leaf) key =
     (if leaf then
        let newKeys = js_sort numeric (ks @ [key])
        in if length newKeys \<le> MAX_KEYS then Some (BPlusNode newKeys cs leaf, None, None)
           else
             let mid = (length newKeys + 1) div 2;
                 leftKeys = take mid newKeys;
                 rightKeys = drop mid newKeys;
                 newLeaf = createLeafNode rightKeys
             in Some (BPlusNode leftKeys cs leaf, Some newLeaf, Some (rightKeys ! 0))
      else
        let childIndex = child_index ks key
        in if childIndex < length cs then
             (case insertRecursive (cs ! childIndex) key of
                None \<Rightarrow> None
              | Some (child, Some newNode, Some promoted) \<Rightarrow>
                  let newKeys = splice_in childIndex promoted ks;
                      newChildren = splice_in (childIndex + 1) newNode (cs[childIndex := child])
                  in if length newKeys \<le> MAX_KEYS
                     then Some (BPlusNode newKeys newChildren leaf, None, None)
                     else
                       let mid = length newKeys div 2;
                           leftKeys = take mid newKeys;
                           rightKeys = drop (mid + 1) newKeys;
                           promotedKey = newKeys ! mid;
                           newInternal = createInternalNode rightKeys (drop (mid + 1) newChildren)
                       in Some (BPlusNode leftKeys (take (mid + 1) newChildren) leaf,
                                Some newInternal, Some promotedKey)
              | Some (child, _, _) \<Rightarrow> Some (BPlusNode ks (cs[childIndex := child]) leaf, None, None))
           else None)"
  by pat_completeness auto
termination
  by (relation "measure (\<lambda>(n, k). size n)") (auto simp: size_nth_children)

declare insertRecursive.simps [simp del]

text \<open>
  \<^verbatim>\<open>insert(key)\<close> of the component that clones: the body of the updater passed to
  \<^verbatim>\<open>setRoot\<close>, from the root in the state to the new root.
\<close>

definition insert_cloning :: "BPlusNode option \<Rightarrow> int \<Rightarrow> js_error + BPlusNode option" where
  "insert_cloning prevRoot key =
     (case prevRoot of
        None \<Rightarrow> Inr (Some (createLeafNode [key]))
      | Some prev \<Rightarrow>
          let root = cloneNode prev
          in (case insertRecursive root key of
                None \<Rightarrow> Inl TypeError
              | Some (root', Some newNode, Some promotedKey) \<Rightarrow>
                  Inr (Some (createInternalNode [promotedKey] [root', newNode]))
              | Some (root', _, _) \<Rightarrow> Inr (Some root')))"

text \<open>
  \<^verbatim>\<open>insert(key)\<close> of the component that mutates. Its \<^verbatim>\<open>root\<close> is the variable of the render
  that created the callback, so the argument is the object that render saw. The result is
  that object as the call leaves it (it is updated in place) and the root passed to
  \<^verbatim>\<open>setRoot\<close>: the new root node, or the copy \<^verbatim>\<open>{ ...root }\<close>.
\<close>

definition insert_mutating ::
  "BPlusNode option \<Rightarrow> int \<Rightarrow> js_error + BPlusNode option \<times> BPlusNode option" where
  "insert_mutating root key =
     (case root of
        None \<Rightarrow> Inr (None, Some (createLeafNode [key]))
      | Some r \<Rightarrow>
          (case insertRecursive r key of
             None \<Rightarrow> Inl TypeError
           | Some (r', Some newNode, Some promotedKey) \<Rightarrow>
               Inr (Some r', Some (createInternalNode [promotedKey] [r', newNode]))
           | Some (r', _, _) \<Rightarrow> Inr (Some r', Some r')))"

text \<open>
  Inserts one after the other, as the form issues them (\<^verbatim>\<open>handleInsert\<close>): the component
  renders between two submissions, so each call of the mutating \<^verbatim>\<open>insert\<close> belongs to a
  render that saw the root the previous call set.
\<close>

fun inserts_cloning :: "BPlusNode option \<Rightarrow> int list \<Rightarrow> js_error + BPlusNode option" where
  "inserts_cloning root [] = Inr root"
| "inserts_cloning root (k # ks) =
     (case insert_cloning root k of Inl e \<Rightarrow> Inl e | Inr root' \<Rightarrow> inserts_cloning root' ks)"

fun inserts_mutating :: "BPlusNode option \<Rightarrow> int list \<Rightarrow> js_error + BPlusNode option" where
  "inserts_mutating root [] = Inr root"
| "inserts_mutating root (k # ks) =
     (case insert_mutating root k of Inl e \<Rightarrow> Inl e
      | Inr (captured, root') \<Rightarrow> inserts_mutating root' ks)"

text \<open>
  \<^verbatim>\<open>insertSampleData\<close> sets ten timers that all call the \<^verbatim>\<open>insert\<close> of the render of the
  click. In the cloning component each call updates the root in the state. In the mutating
  component each call starts from the object that one render captured.
\<close>

fun stale_inserts_mutating ::
  "BPlusNode option \<Rightarrow> BPlusNode option \<Rightarrow> int list \<Rightarrow> js_error + BPlusNode option" where
  "stale_inserts_mutating captured root [] = Inr root"
| "stale_inserts_mutating captured root (k # ks) =
     (case insert_mutating captured k of Inl e \<Rightarrow> Inl e
      | Inr (captured', root') \<Rightarrow> stale_inserts_mutating captured' root' ks)"

definition samples :: "int list" where
  "samples = [10, 20, 5, 15, 25, 30, 35, 40, 12, 18]"

definition insertSampleData_cloning :: "BPlusNode option \<Rightarrow> js_error + BPlusNode option" where
  "insertSampleData_cloning root = inserts_cloning root samples"

definition insertSampleData_mutating :: "BPlusNode option \<Rightarrow> js_error + BPlusNode option" where
  "insertSampleData_mutating root = stale_inserts_mutating root root samples"

text \<open>
  \<^verbatim>\<open>getTreeDepth\<close>. \<^verbatim>\<open>Math.max()\<close> of no arguments is -Infinity, and 1 + -Infinity is
  -Infinity.
\<close>

datatype jsnum = NegInfinity | Num int

fun js_max :: "jsnum \<Rightarrow> jsnum \<Rightarrow> jsnum" where
  "js_max NegInfinity y = y"
| "js_max x NegInfinity = x"
| "js_max (Num a) (Num b) = Num (max a b)"

fun js_add :: "jsnum \<Rightarrow> jsnum \<Rightarrow> jsnum" where
  "js_add (Num a) (Num b) = Num (a + b)"
| "js_add _ _ = NegInfinity"

definition Math_max :: "jsnum list \<Rightarrow> jsnum" where
  "Math_max xs = fold js_max xs NegInfinity"

fun nodeDepth :: "BPlusNode \<Rightarrow> jsnum" where
  "nodeDepth (BPlusNode ks cs leaf) =
     (if leaf then Num 1 else js_add (Num 1) (Math_max (map nodeDepth cs)))"

definition getTreeDepth :: "BPlusNode option \<Rightarrow> jsnum" where
  "getTreeDepth node = (case node of None \<Rightarrow> Num 0 | Some n \<Rightarrow> nodeDepth n)"

text \<open>
  For the claims: the depth of every leaf (the root is at depth 1), the bound on the keys
  of every node, and the invariant of the trees that inserts build: every node within
  MAX_KEYS, leaves without children and all at depth \<open>h\<close>, an internal node with one child
  more than keys.
\<close>

fun leaf_depths :: "BPlusNode \<Rightarrow> nat list" where
  "leaf_depths (BPlusNode ks cs leaf) =
     (if leaf then [1] else map Suc (concat (map leaf_depths cs)))"


fun bp_inv :: "nat \<Rightarrow> BPlusNode \<Rightarrow> bool" where
  "bp_inv h (BPlusNode ks cs leaf) =
     (length ks \<le> MAX_KEYS \<and>
      (if leaf then h = 1 \<and> cs = []
       else 1 < h \<and> length cs = Suc (length ks) \<and> list_all (bp_inv (h - 1)) cs))"

section \<open>Write-ahead log widget (WALVisualizer.tsx)\<close>

datatype LogType = BEGIN | WRITE | COMMIT | CHECKPOINT | ABORT

text \<open>The optional fields of \<^verbatim>\<open>LogEntry\<close> are \<open>None\<close> when \<^verbatim>\<open>undefined\<close>.\<close>

record LogEntry =
  log_lsn :: int
  log_type :: LogType
  log_txnId :: int
  log_table :: "string option"
  log_key :: "string option"
  log_oldValue :: "string option"
  log_newValue :: "string option"
  log_timestamp :: int

datatype TxnStatus = active | committed | aborted

record Transaction =
  txn_id :: int
  txn_status :: TxnStatus
  txn_operations :: "LogEntry list"

record DataPage =
  page_key :: string
  page_value :: string
  page_dirty :: bool
  page_lsn :: int

text \<open>
  The component's state (the activity log is display only and left out). A callback made
  by \<^verbatim>\<open>useCallback\<close> reads the state variables of the render that created it, and its
  updaters \<^verbatim>\<open>setX(prev => ...)\<close> run on the state of the moment. So every operation takes
  two states: \<open>cl\<close>, the state of the render the callback belongs to, and \<open>st\<close>, the state
  it updates. \<open>now\<close> is \<^verbatim>\<open>Date.now()\<close>.
\<close>

record wal_state =
  wal :: "LogEntry list"
  transactions :: "Transaction list"
  dataPages :: "DataPage list"
  nextLsn :: int
  nextTxnId :: int
  isRecovering :: bool
  checkpointLsn :: "int option"

definition initialPages :: "DataPage list" where
  "initialPages =
     [\<lparr>page_key = ''balance:A'', page_value = ''1000'', page_dirty = False, page_lsn = 0\<rparr>,
      \<lparr>page_key = ''balance:B'', page_value = ''500'', page_dirty = False, page_lsn = 0\<rparr>,
      \<lparr>page_key = ''balance:C'', page_value = ''750'', page_dirty = False, page_lsn = 0\<rparr>]"

definition wal_init :: wal_state where
  "wal_init = \<lparr>wal = [], transactions = [], dataPages = initialPages, nextLsn = 1,
                nextTxnId = 1, isRecovering = False, checkpointLsn = None\<rparr>"

definition plain_entry :: "LogType \<Rightarrow> int \<Rightarrow> LogEntry" where
  "plain_entry ty txnId =
     \<lparr>log_lsn = 0, log_type = ty, log_txnId = txnId, log_table = None, log_key = None,
      log_oldValue = None, log_newValue = None, log_timestamp = 0\<rparr>"

text \<open>\<^verbatim>\<open>appendWal(entry)\<close>; the argument's \<open>lsn\<close> and \<open>timestamp\<close> are overwritten.\<close>

definition appendWal :: "wal_state \<Rightarrow> int \<Rightarrow> LogEntry \<Rightarrow> wal_state \<Rightarrow> LogEntry \<times> wal_state" where
  "appendWal cl now entry st =
     (let newEntry = entry\<lparr>log_lsn := nextLsn cl, log_timestamp := now\<rparr>
      in (newEntry, st\<lparr>wal := wal st @ [newEntry], nextLsn := nextLsn st + 1\<rparr>))"

definition beginTransaction :: "wal_state \<Rightarrow> int \<Rightarrow> wal_state \<Rightarrow> int \<times> wal_state" where
  "beginTransaction cl now st =
     (let txnId = nextTxnId cl;
          st1 = st\<lparr>nextTxnId := nextTxnId st + 1\<rparr>;
          (entry, st2) = appendWal cl now (plain_entry BEGIN txnId) st1
      in (txnId,
          st2\<lparr>transactions := transactions st2 @
             [\<lparr>txn_id = txnId, txn_status = active,
               txn_operations = [entry\<lparr>log_lsn := nextLsn cl - 1, log_timestamp := now\<rparr>]\<rparr>]\<rparr>))"

definition writeData :: "wal_state \<Rightarrow> int \<Rightarrow> int \<Rightarrow> string \<Rightarrow> string \<Rightarrow> wal_state \<Rightarrow> wal_state" where
  "writeData cl now txnId k newValue st =
     (case find (\<lambda>p. page_key p = k) (dataPages cl) of
        None \<Rightarrow> st
      | Some page \<Rightarrow>
          let oldValue = page_value page;
              (entry, st1) = appendWal cl now
                 ((plain_entry WRITE txnId)\<lparr>log_table := Some ''accounts'', log_key := Some k,
                    log_oldValue := Some oldValue, log_newValue := Some newValue\<rparr>) st;
              st2 = st1\<lparr>dataPages := map (\<lambda>p. if page_key p = k
                        then p\<lparr>page_value := newValue, page_dirty := True, page_lsn := nextLsn cl - 1\<rparr>
                        else p) (dataPages st1)\<rparr>
          in st2\<lparr>transactions := map (\<lambda>t. if txn_id t = txnId
                        then t\<lparr>txn_operations := txn_operations t @
                               [entry\<lparr>log_lsn := nextLsn cl - 1, log_timestamp := now\<rparr>]\<rparr>
                        else t) (transactions st2)\<rparr>)"

definition commitTransaction :: "wal_state \<Rightarrow> int \<Rightarrow> int \<Rightarrow> wal_state \<Rightarrow> wal_state" where
  "commitTransaction cl now txnId st =
     (let (entry, st1) = appendWal cl now (plain_entry COMMIT txnId) st;
          st2 = st1\<lparr>transactions := map (\<lambda>t. if txn_id t = txnId
                        then t\<lparr>txn_status := committed\<rparr> else t) (transactions st1)\<rparr>
      in st2\<lparr>dataPages := map (\<lambda>p. p\<lparr>page_dirty := False\<rparr>) (dataPages st2)\<rparr>)"

text \<open>A string is truthy when it is defined and not empty.\<close>

definition truthy :: "string option \<Rightarrow> bool" where
  "truthy s = (case s of None \<Rightarrow> False | Some v \<Rightarrow> v \<noteq> [])"

text \<open>One step of the UNDO loops: the page under the operation's key gets the old value.\<close>

definition undo_op :: "bool \<Rightarrow> LogEntry \<Rightarrow> DataPage list \<Rightarrow> DataPage list" where
  "undo_op clean op pages =
     (if truthy (log_key op) \<and> log_oldValue op \<noteq> None
      then map (\<lambda>p. if Some (page_key p) = log_key op
                     then (if clean then p\<lparr>page_value := the (log_oldValue op), page_dirty := False\<rparr>
                           else p\<lparr>page_value := the (log_oldValue op)\<rparr>)
                     else p) pages
      else pages)"

definition writeOps :: "Transaction \<Rightarrow> LogEntry list" where
  "writeOps txn = rev (filter (\<lambda>op. log_type op = WRITE) (txn_operations txn))"

definition abortTransaction :: "wal_state \<Rightarrow> int \<Rightarrow> int \<Rightarrow> wal_state \<Rightarrow> wal_state" where
  "abortTransaction cl now txnId st =
     (case find (\<lambda>t. txn_id t = txnId) (transactions cl) of
        None \<Rightarrow> st
      | Some txn \<Rightarrow>
          let (entry, st1) = appendWal cl now (plain_entry ABORT txnId) st;
              st2 = st1\<lparr>dataPages := fold (undo_op True) (writeOps txn) (dataPages st1)\<rparr>
          in st2\<lparr>transactions := map (\<lambda>t. if txn_id t = txnId
                        then t\<lparr>txn_status := aborted\<rparr> else t) (transactions st2)\<rparr>)"

definition checkpoint :: "wal_state \<Rightarrow> int \<Rightarrow> wal_state \<Rightarrow> wal_state" where
  "checkpoint cl now st =
     (let (entry, st1) = appendWal cl now (plain_entry CHECKPOINT 0) st;
          st2 = st1\<lparr>checkpointLsn := Some (log_lsn entry)\<rparr>
      in st2\<lparr>dataPages := map (\<lambda>p. p\<lparr>page_dirty := False\<rparr>) (dataPages st2)\<rparr>)"

text \<open>
  \<^verbatim>\<open>simulateCrashRecovery\<close>, run to its end with no other event in between. The log, the
  transactions and the checkpoint are those of the render of the click (\<open>cl\<close>); the pages
  and the statuses are updated in the state. \<^verbatim>\<open>checkpointLsn || 1\<close> is 1 for \<^verbatim>\<open>null\<close> and
  for 0.
\<close>

definition redo_entry :: "LogEntry \<Rightarrow> DataPage list \<Rightarrow> DataPage list" where
  "redo_entry entry pages =
     (if log_type entry = WRITE \<and> truthy (log_key entry) \<and> truthy (log_newValue entry)
      then map (\<lambda>p. if Some (page_key p) = log_key entry
                     then p\<lparr>page_value := the (log_newValue entry), page_lsn := log_lsn entry\<rparr>
                     else p) pages
      else pages)"

definition undo_txn :: "Transaction \<Rightarrow> wal_state \<Rightarrow> wal_state" where
  "undo_txn txn st =
     (let st1 = st\<lparr>dataPages := fold (undo_op False) (writeOps txn) (dataPages st)\<rparr>
      in st1\<lparr>transactions := map (\<lambda>t. if txn_id t = txn_id txn
                        then t\<lparr>txn_status := aborted\<rparr> else t) (transactions st1)\<rparr>)"

definition simulateCrashRecovery :: "wal_state \<Rightarrow> wal_state \<Rightarrow> wal_state" where
  "simulateCrashRecovery cl st =
     (let st0 = st\<lparr>isRecovering := True\<rparr>;
          startLsn = (case checkpointLsn cl of None \<Rightarrow> 1 | Some l \<Rightarrow> if l = 0 then 1 else l);
          entriesToRedo = filter (\<lambda>e. log_lsn e \<ge> startLsn) (wal cl);
          st1 = st0\<lparr>dataPages := fold redo_entry entriesToRedo (dataPages st0)\<rparr>;
          uncommittedTxns = filter (\<lambda>t. txn_status t = active) (transactions cl);
          st2 = fold undo_txn uncommittedTxns st1
      in st2\<lparr>isRecovering := False\<rparr>)"

text \<open>
  \<^verbatim>\<open>runDemo\<close>: the reset, then eight calls. They are the callbacks of the render of the
  click, so all eight read the state \<open>cl\<close> of that render. \<open>now i\<close> is the clock at call \<open>i\<close>.
\<close>

definition demo_reset :: "wal_state \<Rightarrow> wal_state" where
  "demo_reset st = st\<lparr>wal := [], transactions := [], dataPages := initialPages, nextLsn := 1,
                       nextTxnId := 1, checkpointLsn := None\<rparr>"

definition runDemo :: "wal_state \<Rightarrow> (nat \<Rightarrow> int) \<Rightarrow> wal_state \<Rightarrow> wal_state" where
  "runDemo cl now st =
     (let s0 = demo_reset st;
          (t1, s1) = beginTransaction cl (now 0) s0;
          s2 = writeData cl (now 1) t1 ''balance:A'' ''900'' s1;
          s3 = writeData cl (now 2) t1 ''balance:B'' ''600'' s2;
          s4 = commitTransaction cl (now 3) t1 s3;
          s5 = checkpoint cl (now 4) s4;
          (t2, s6) = beginTransaction cl (now 5) s5;
          s7 = writeData cl (now 6) t2 ''balance:B'' ''400'' s6
      in writeData cl (now 7) t2 ''balance:C'' ''950'' s7)"

text \<open>
  A callback of the render that shows \<open>st\<close>, run on \<open>st\<close>: what a call does when the
  component has rendered since the previous change.
\<close>

definition in_render :: "(wal_state \<Rightarrow> wal_state \<Rightarrow> 'a) \<Rightarrow> wal_state \<Rightarrow> 'a" where
  "in_render f st = f st st"

text \<open>
  The eight calls of the demo when each one belongs to a render that has seen the state
  the previous call left: what the demo is written to show.
\<close>

definition demo_fresh :: "(nat \<Rightarrow> int) \<Rightarrow> wal_state \<Rightarrow> wal_state" where
  "demo_fresh now st =
     (let s0 = demo_reset st;
          (t1, s1) = in_render (\<lambda>cl. beginTransaction cl (now 0)) s0;
          s2 = in_render (\<lambda>cl. writeData cl (now 1) t1 ''balance:A'' ''900'') s1;
          s3 = in_render (\<lambda>cl. writeData cl (now 2) t1 ''balance:B'' ''600'') s2;
          s4 = in_render (\<lambda>cl. commitTransaction cl (now 3) t1) s3;
          s5 = in_render (\<lambda>cl. checkpoint cl (now 4)) s4;
          (t2, s6) = in_render (\<lambda>cl. beginTransaction cl (now 5)) s5;
          s7 = in_render (\<lambda>cl. writeData cl (now 6) t2 ''balance:B'' ''400'') s6
      in in_render (\<lambda>cl. writeData cl (now 7) t2 ''balance:C'' ''950'') s7)"

definition page_values :: "wal_state \<Rightarrow> (string \<times> string) list" where
  "page_values st = map (\<lambda>p. (page_key p, page_value p)) (dataPages st)"

definition txn_statuses :: "wal_state \<Rightarrow> (int \<times> TxnStatus) list" where
  "txn_statuses st = map (\<lambda>t. (txn_id t, txn_status t)) (transactions st)"

section \<open>Theme colour checker (the script check-theme-colors)\<close>



subsection \<open>The regular expressions the script uses\<close>























subsection \<open>The files the script scans\<close>











subsection \<open>Checking a file\<close>









subsection \<open>What the claim speaks of\<close>












section \<open>Properties of the sort\<close>

lemma set_insort_cmp: "set (insort_cmp cmp x xs) = insert x (set xs)"
  by (induction xs) auto

lemma length_insort_cmp: "length (insort_cmp cmp x xs) = Suc (length xs)"
  by (induction xs) auto

lemma set_js_sort: "set (js_sort cmp xs) = set xs"
  by (induction xs) (auto simp: js_sort_def set_insort_cmp)

lemma length_js_sort: "length (js_sort cmp xs) = length xs"
  by (induction xs) (auto simp: js_sort_def length_insort_cmp)

lemma distinct_map_insort_cmp:
  "distinct (map f (insort_cmp cmp x xs)) \<longleftrightarrow> f x \<notin> f ` set xs \<and> distinct (map f xs)"
  by (induction xs) (auto simp: set_insort_cmp)

lemma distinct_map_js_sort: "distinct (map f (js_sort cmp xs)) \<longleftrightarrow> distinct (map f xs)"
  by (induction xs) (auto simp: js_sort_def distinct_map_insort_cmp set_js_sort[unfolded js_sort_def])


lemma sorted_insort_cmp:
  assumes "consistent_cmp cmp" and "sorted_wrt (\<lambda>a b. cmp a b \<le> 0) xs"
  shows "sorted_wrt (\<lambda>a b. cmp a b \<le> 0) (insort_cmp cmp x xs)"
  using assms(2)
proof (induction xs)
  case Nil
  then show ?case by simp
next
  case (Cons y ys)
  from assms(1) have tot: "\<And>a b. cmp a b \<le> 0 \<or> cmp b a \<le> 0"
    and tr: "\<And>a b c. cmp a b \<le> 0 \<Longrightarrow> cmp b c \<le> 0 \<Longrightarrow> cmp a c \<le> 0"
    unfolding consistent_cmp_def by blast+
  show ?case
  proof (cases "cmp x y \<le> 0")
    case True
    with Cons.prems tr show ?thesis by auto
  next
    case False
    with tot have "cmp y x \<le> 0" by blast
    with False Cons show ?thesis by (auto simp: set_insort_cmp)
  qed
qed

lemma js_sort_Nil: "js_sort cmp [] = []" by (simp add: js_sort_def)
lemma js_sort_Cons: "js_sort cmp (x # xs) = insort_cmp cmp x (js_sort cmp xs)" by (simp add: js_sort_def)
lemma sorted_js_sort:
  "consistent_cmp cmp \<Longrightarrow> sorted_wrt (\<lambda>a b. cmp a b \<le> 0) (js_sort cmp xs)"
  by (induction xs) (simp_all add: js_sort_Nil js_sort_Cons sorted_insort_cmp)

lemma codeunit_cmp_total: "codeunit_cmp a b \<le> 0 \<or> codeunit_cmp b a \<le> 0"
  by (induction a b rule: codeunit_cmp.induct) auto

lemma codeunit_cmp_trans:
  "codeunit_cmp a b \<le> 0 \<Longrightarrow> codeunit_cmp b c \<le> 0 \<Longrightarrow> codeunit_cmp a c \<le> 0"
proof (induction a b arbitrary: c rule: codeunit_cmp.induct)
  case 1
  then show ?case by simp
next
  case (2 y ys)
  then show ?case by (cases c) auto
next
  case (3 x xs)
  then show ?case by simp
next
  case (4 x xs y ys)
  show ?case
  proof (cases c)
    case Nil
    with 4 show ?thesis by simp
  next
    case (Cons z zs)
    show ?thesis
    proof (cases "(of_char x :: nat) < of_char y")
      case True
      with 4 Cons show ?thesis by (auto split: if_splits)
    next
      case False
      with "4.prems" have xy: "(of_char x :: nat) = of_char y" and r: "codeunit_cmp xs ys \<le> 0"
        by (auto split: if_splits)
      from "4.prems"(2) Cons have "(of_char y :: nat) \<le> of_char z"
        by (auto split: if_splits)
      show ?thesis
      proof (cases "(of_char y :: nat) < of_char z")
        case True
        with xy Cons show ?thesis by simp
      next
        case F2: False
        with "4.prems"(2) Cons have r2: "codeunit_cmp ys zs \<le> 0" and yz: "(of_char y :: nat) = of_char z"
          by (auto split: if_splits)
        from "4.IH"[OF False _ r r2] xy have "codeunit_cmp xs zs \<le> 0" by simp
        with xy yz Cons show ?thesis by simp
      qed
    qed
  qed
qed

lemma codeunit_cmp_consistent: "consistent_cmp codeunit_cmp"
  unfolding consistent_cmp_def using codeunit_cmp_total codeunit_cmp_trans by blast

lemma codeunit_cmp_eq: "codeunit_cmp a b = 0 \<Longrightarrow> a = b"
  by (induction a b rule: codeunit_cmp.induct) (auto split: if_splits)

lemma codeunit_cmp_separates: "separates codeunit_cmp ks"
  unfolding separates_def using codeunit_cmp_eq by blast

lemma canonical_cmp_consistent: "consistent_cmp canonical_cmp"
proof -
  have "canonical_cmp a b \<le> 0 \<or> canonical_cmp b a \<le> 0" for a b
    unfolding canonical_cmp_def by (rule codeunit_cmp_total)
  moreover have "canonical_cmp a b \<le> 0 \<Longrightarrow> canonical_cmp b c \<le> 0 \<Longrightarrow> canonical_cmp a c \<le> 0"
    for a b c
    unfolding canonical_cmp_def by (rule codeunit_cmp_trans)
  ultimately show ?thesis unfolding consistent_cmp_def by blast
qed

section \<open>LSM tree: the memtable\<close>

lemma by_key_consistent: "consistent_cmp lc \<Longrightarrow> consistent_cmp (by_key lc)"
  unfolding consistent_cmp_def by_key_def by blast

lemma by_timestamp_consistent: "consistent_cmp by_timestamp"
  unfolding consistent_cmp_def by_timestamp_def by auto

lemma filter_key_singleton:
  "distinct (map f xs) \<Longrightarrow> x \<in> set xs \<Longrightarrow> filter (\<lambda>e. f e = f x) xs = [x]"
proof (induction xs)
  case Nil
  then show ?case by simp
next
  case (Cons y ys)
  show ?case
  proof (cases "y = x")
    case True
    with Cons.prems have "\<forall>e\<in>set ys. f e \<noteq> f x" by (auto simp: image_iff)
    then have "filter (\<lambda>e. f e = f x) ys = []" by (simp add: filter_empty_conv)
    with True show ?thesis by simp
  next
    case False
    with Cons.prems have "x \<in> set ys" "f y \<noteq> f x" by auto
    with Cons show ?thesis by simp
  qed
qed

lemma strict_from_separates:
  "separates lc (entry_key ` set xs) \<Longrightarrow> distinct (map entry_key xs) \<Longrightarrow>
   sorted_wrt (\<lambda>a b. lc (entry_key a) (entry_key b) \<le> 0) xs \<Longrightarrow>
   sorted_wrt (\<lambda>a b. lc (entry_key a) (entry_key b) < 0) xs"
proof (induction xs)
  case Nil
  then show ?case by simp
next
  case (Cons a xs)
  from Cons.prems(1) have sep: "separates lc (entry_key ` set xs)"
    unfolding separates_def by simp
  have "lc (entry_key a) (entry_key b) < 0" if "b \<in> set xs" for b
  proof -
    from that Cons.prems have le: "lc (entry_key a) (entry_key b) \<le> 0"
      and ne: "entry_key a \<noteq> entry_key b"
      by auto
    from Cons.prems(1) that have "lc (entry_key a) (entry_key b) = 0 \<longrightarrow> entry_key a = entry_key b"
      unfolding separates_def by simp
    with le ne show ?thesis by force
  qed
  with Cons.IH[OF sep] Cons.prems show ?case by simp
qed

lemma lsm_write_memtable:
  "memtable (fst (lsm_write lc now k v st)) =
     js_sort (by_key lc) (filter (\<lambda>e. entry_key e \<noteq> k) (memtable st) @
       [\<lparr>entry_key = k, entry_value = v, entry_timestamp = now\<rparr>])"
  by (simp add: lsm_write_def Let_def)

lemma lsm_write_distinct:
  "distinct (map entry_key (memtable st)) \<Longrightarrow>
   distinct (map entry_key (memtable (fst (lsm_write lc now k v st))))"
  by (auto simp: lsm_write_memtable distinct_map_js_sort distinct_map_filter)

lemma lsm_step_distinct:
  assumes "distinct (map entry_key (memtable st))"
  shows "distinct (map entry_key (memtable (lsm_step lc ev st)))"
proof (cases ev)
  case (EvWrite now k v)
  then show ?thesis using lsm_write_distinct[OF assms] by simp
next
  case EvReset
  then show ?thesis by (simp add: lsm_reset_def)
next
  case (EvTimer now task)
  with assms show ?thesis
    by (cases task) (simp_all add: flushMemtable_def compact_def compact_done_def Let_def)
qed

lemma lsm_fold_distinct:
  "distinct (map entry_key (memtable st)) \<Longrightarrow>
   distinct (map entry_key (memtable (fold (lsm_step lc) evs st)))"
  by (induction evs arbitrary: st) (simp_all add: lsm_step_distinct)

lemma lsm_run_distinct: "distinct (map entry_key (memtable (lsm_run lc evs)))"
  unfolding lsm_run_def by (rule lsm_fold_distinct) (simp add: lsm_init_def)

text \<open>
  Claim C10, amended. In every state the widget reaches from the empty one (writes, resets
  and timers in any order), a write leaves the memtable with pairwise different keys and in
  ascending order of the collation, not always strictly; the entries under the written key
  are exactly the new entry, and the other entries are kept. The order is strict when the
  collation separates the keys of the memtable. The collation is taken to be consistent, as
  the sort requires.
\<close>

theorem write_keeps_memtable_sorted_unique:
  assumes "consistent_cmp localeCompare"
  shows "let st = lsm_run localeCompare evs;
             entry = \<lparr>entry_key = k, entry_value = v, entry_timestamp = now\<rparr>;
             m = memtable (fst (lsm_write localeCompare now k v st))
         in distinct (map entry_key m) \<and>
            sorted_wrt (\<lambda>a b. localeCompare (entry_key a) (entry_key b) \<le> 0) m \<and>
            (separates localeCompare (entry_key ` set m) \<longrightarrow>
               sorted_wrt (\<lambda>a b. localeCompare (entry_key a) (entry_key b) < 0) m) \<and>
            filter (\<lambda>e. entry_key e = k) m = [entry] \<and>
            set m = insert entry {e \<in> set (memtable st). entry_key e \<noteq> k}"
proof -
  define st where "st = lsm_run localeCompare evs"
  define entry where "entry = \<lparr>entry_key = k, entry_value = v, entry_timestamp = now\<rparr>"
  define m where "m = memtable (fst (lsm_write localeCompare now k v st))"
  have m_eq: "m = js_sort (by_key localeCompare) (filter (\<lambda>e. entry_key e \<noteq> k) (memtable st) @ [entry])"
    unfolding m_def entry_def by (rule lsm_write_memtable)
  have d: "distinct (map entry_key m)"
    unfolding m_def st_def by (rule lsm_write_distinct) (rule lsm_run_distinct)
  have "sorted_wrt (\<lambda>a b. by_key localeCompare a b \<le> 0) m"
    unfolding m_eq by (rule sorted_js_sort) (rule by_key_consistent[OF assms])
  then have s: "sorted_wrt (\<lambda>a b. localeCompare (entry_key a) (entry_key b) \<le> 0) m"
    by (simp add: by_key_def)
  have setm: "set m = insert entry {e \<in> set (memtable st). entry_key e \<noteq> k}"
    unfolding m_eq by (auto simp: set_js_sort)
  then have "entry \<in> set m" by simp
  from filter_key_singleton[OF d this] have f: "filter (\<lambda>e. entry_key e = k) m = [entry]"
    by (simp add: entry_def)
  from d s f setm strict_from_separates[OF _ d s] show ?thesis
    unfolding Let_def st_def[symmetric] entry_def[symmetric] m_def[symmetric] by blast
qed

theorem write_keeps_memtable_sorted_unique_witness:
  "consistent_cmp codeunit_cmp \<and> separates codeunit_cmp {''a'', ''b''} \<and>
   memtable (fst (lsm_write codeunit_cmp 3 ''a'' ''z''
      (lsm_run codeunit_cmp [EvWrite 1 ''b'' ''x'', EvWrite 2 ''a'' ''y'']))) =
     [\<lparr>entry_key = ''a'', entry_value = ''z'', entry_timestamp = 3\<rparr>,
      \<lparr>entry_key = ''b'', entry_value = ''x'', entry_timestamp = 1\<rparr>] \<and>
   distinct (map entry_key (memtable (fst (lsm_write codeunit_cmp 3 ''a'' ''z''
      (lsm_run codeunit_cmp [EvWrite 1 ''b'' ''x'', EvWrite 2 ''a'' ''y''])))))  \<and>
   sorted_wrt (\<lambda>a b. codeunit_cmp (entry_key a) (entry_key b) < 0)
     (memtable (fst (lsm_write codeunit_cmp 3 ''a'' ''z''
      (lsm_run codeunit_cmp [EvWrite 1 ''b'' ''x'', EvWrite 2 ''a'' ''y'']))))"
proof -
  have c: "consistent_cmp codeunit_cmp" by (rule codeunit_cmp_consistent)
  have s: "separates codeunit_cmp ks" for ks by (rule codeunit_cmp_separates)
  have e: "memtable (fst (lsm_write codeunit_cmp 3 ''a'' ''z''
      (lsm_run codeunit_cmp [EvWrite 1 ''b'' ''x'', EvWrite 2 ''a'' ''y'']))) =
     [\<lparr>entry_key = ''a'', entry_value = ''z'', entry_timestamp = 3\<rparr>,
      \<lparr>entry_key = ''b'', entry_value = ''x'', entry_timestamp = 1\<rparr>]"
    by (simp add: lsm_run_def lsm_init_def lsm_write_def js_sort_def by_key_def Let_def)
  note t = write_keeps_memtable_sorted_unique[OF c,
      of "[EvWrite 1 ''b'' ''x'', EvWrite 2 ''a'' ''y'']" "''a''" "''z''" 3, unfolded Let_def]
  from t have d: "distinct (map entry_key (memtable (fst (lsm_write codeunit_cmp 3 ''a'' ''z''
      (lsm_run codeunit_cmp [EvWrite 1 ''b'' ''x'', EvWrite 2 ''a'' ''y''])))))"
    by (rule conjunct1)
  from t s have o: "sorted_wrt (\<lambda>a b. codeunit_cmp (entry_key a) (entry_key b) < 0)
     (memtable (fst (lsm_write codeunit_cmp 3 ''a'' ''z''
      (lsm_run codeunit_cmp [EvWrite 1 ''b'' ''x'', EvWrite 2 ''a'' ''y'']))))"
    by (elim conjE impE) assumption+
  from c s e d o show ?thesis by (intro conjI)
qed

text \<open>
  Claim C10 as stated fails. It asks for a strictly ascending order after every write. Write the key U+00E9 into the empty widget, then the key U+0065 U+0301: the two
  keys are different strings, so the second write removes nothing and the memtable holds
  both entries; the collation answers 0 for them, so the memtable is not in strictly
  ascending order.
\<close>

theorem canonically_equivalent_keys_not_strictly_sorted:
  "consistent_cmp canonical_cmp \<and>
   e_acute \<noteq> e_combining_acute \<and>
   canonical_cmp e_acute e_combining_acute = 0 \<and>
   map entry_key (memtable (fst (lsm_write canonical_cmp 2 e_combining_acute ''2''
      (lsm_run canonical_cmp [EvWrite 1 e_acute ''1''])))) = [e_acute, e_combining_acute] \<and>
   \<not> sorted_wrt (\<lambda>a b. canonical_cmp (entry_key a) (entry_key b) < 0)
     (memtable (fst (lsm_write canonical_cmp 2 e_combining_acute ''2''
        (lsm_run canonical_cmp [EvWrite 1 e_acute ''1'']))))"
proof -
  have m: "memtable (fst (lsm_write canonical_cmp 2 e_combining_acute ''2''
      (lsm_run canonical_cmp [EvWrite 1 e_acute ''1'']))) =
     [\<lparr>entry_key = e_acute, entry_value = ''1'', entry_timestamp = 1\<rparr>,
      \<lparr>entry_key = e_combining_acute, entry_value = ''2'', entry_timestamp = 2\<rparr>]"
    by (simp add: lsm_run_def lsm_init_def lsm_write_def js_sort_def by_key_def Let_def
        canonical_cmp_def e_acute_def e_combining_acute_def)
  have z: "canonical_cmp e_acute e_combining_acute = 0"
    by (simp add: canonical_cmp_def e_acute_def e_combining_acute_def)
  have n: "e_acute \<noteq> e_combining_acute"
    by (simp add: e_acute_def e_combining_acute_def)
  have k: "map entry_key (memtable (fst (lsm_write canonical_cmp 2 e_combining_acute ''2''
      (lsm_run canonical_cmp [EvWrite 1 e_acute ''1''])))) = [e_acute, e_combining_acute]"
    unfolding m by simp
  have s: "\<not> sorted_wrt (\<lambda>a b. canonical_cmp (entry_key a) (entry_key b) < 0)
     (memtable (fst (lsm_write canonical_cmp 2 e_combining_acute ''2''
        (lsm_run canonical_cmp [EvWrite 1 e_acute ''1'']))))"
    unfolding m by (simp add: z)
  from canonical_cmp_consistent n z k s show ?thesis by (intro conjI)
qed

section \<open>LSM tree: flush\<close>

lemma flushMemtable_nonempty:
  assumes "m \<noteq> []"
  shows "flushMemtable now m st =
    (st\<lparr>memtable := [],
        sstables := sstables st @ [\<lparr>sst_id = (''sstable-'', now), sst_level = 0, sst_entries = m,
           sst_size = length m, sst_minKey = entry_key (hd m), sst_maxKey = entry_key (last m)\<rparr>]\<rparr>,
     if length (filter (\<lambda>t. sst_level t = 0) (sstables st @ [\<lparr>sst_id = (''sstable-'', now), sst_level = 0, sst_entries = m,
           sst_size = length m, sst_minKey = entry_key (hd m), sst_maxKey = entry_key (last m)\<rparr>])) \<ge> 2
     then [(500, Compact 0 (sstables st @ [\<lparr>sst_id = (''sstable-'', now), sst_level = 0, sst_entries = m,
           sst_size = length m, sst_minKey = entry_key (hd m), sst_maxKey = entry_key (last m)\<rparr>]))] else [])"
  using assms by (simp add: flushMemtable_def Let_def)

text \<open>
  What \<^verbatim>\<open>write\<close> and \<^verbatim>\<open>flushMemtable\<close> do, call by call. A write that leaves the memtable
  with MAX_MEMTABLE_SIZE entries or more sets the flush timer (500 ms) with the array it
  has just built. Whatever the state is when the timer fires, the flush appends one table
  at level 0 whose entries are that array, with minKey and maxKey the keys of its first and
  last entry, empties the memtable of the moment, and sets the timer of a compaction of
  level 0 exactly when level 0 then holds at least 2 tables.
\<close>

lemma full_memtable_is_flushed:
  assumes "length (memtable (fst (lsm_write localeCompare now k v st))) \<ge> MAX_MEMTABLE_SIZE"
  shows "\<exists>m. m = memtable (fst (lsm_write localeCompare now k v st)) \<and>
           snd (lsm_write localeCompare now k v st) = [(500, FlushMemtable m)] \<and>
           (\<forall>now' st'. \<exists>t.
              memtable (fst (flushMemtable now' m st')) = [] \<and>
              sstables (fst (flushMemtable now' m st')) = sstables st' @ [t] \<and>
              sst_level t = 0 \<and> sst_entries t = m \<and> sst_size t = length m \<and>
              sst_minKey t = entry_key (m ! 0) \<and>
              sst_maxKey t = entry_key (m ! (length m - 1)) \<and>
              snd (flushMemtable now' m st') =
                (if length (filter (\<lambda>t. sst_level t = 0) (sstables (fst (flushMemtable now' m st')))) \<ge> 2
                 then [(500, Compact 0 (sstables (fst (flushMemtable now' m st'))))] else []))"
proof -
  define m where "m = memtable (fst (lsm_write localeCompare now k v st))"
  from assms have len: "length m \<ge> 4" by (simp add: m_def MAX_MEMTABLE_SIZE_def)
  then have ne: "m \<noteq> []" by auto
  have sched: "snd (lsm_write localeCompare now k v st) = [(500, FlushMemtable m)]"
    using assms unfolding m_def by (simp add: lsm_write_def Let_def)
  have h: "hd m = m ! 0" using ne by (simp add: hd_conv_nth)
  have l: "last m = m ! (length m - 1)" using ne by (simp add: last_conv_nth)
  have "\<exists>t. memtable (fst (flushMemtable now' m st')) = [] \<and>
              sstables (fst (flushMemtable now' m st')) = sstables st' @ [t] \<and>
              sst_level t = 0 \<and> sst_entries t = m \<and> sst_size t = length m \<and>
              sst_minKey t = entry_key (m ! 0) \<and>
              sst_maxKey t = entry_key (m ! (length m - 1)) \<and>
              snd (flushMemtable now' m st') =
                (if length (filter (\<lambda>t. sst_level t = 0) (sstables (fst (flushMemtable now' m st')))) \<ge> 2
                 then [(500, Compact 0 (sstables (fst (flushMemtable now' m st'))))] else [])" for now' st'
    unfolding flushMemtable_nonempty[OF ne] h l by simp
  with sched show ?thesis unfolding m_def by blast
qed

lemma full_memtable_is_flushed_witness:
  "MAX_MEMTABLE_SIZE \<le> length (memtable (fst (lsm_write codeunit_cmp 4 ''d'' ''4''
      (lsm_run codeunit_cmp [EvWrite 1 ''c'' ''1'', EvWrite 2 ''a'' ''2'', EvWrite 3 ''b'' ''3''])))) \<and>
   snd (lsm_write codeunit_cmp 4 ''d'' ''4''
      (lsm_run codeunit_cmp [EvWrite 1 ''c'' ''1'', EvWrite 2 ''a'' ''2'', EvWrite 3 ''b'' ''3''])) =
     [(500, FlushMemtable
        [\<lparr>entry_key = ''a'', entry_value = ''2'', entry_timestamp = 2\<rparr>,
         \<lparr>entry_key = ''b'', entry_value = ''3'', entry_timestamp = 3\<rparr>,
         \<lparr>entry_key = ''c'', entry_value = ''1'', entry_timestamp = 1\<rparr>,
         \<lparr>entry_key = ''d'', entry_value = ''4'', entry_timestamp = 4\<rparr>])]"
proof -
  define st where "st = lsm_run codeunit_cmp [EvWrite 1 ''c'' ''1'', EvWrite 2 ''a'' ''2'', EvWrite 3 ''b'' ''3'']"
  have m: "memtable (fst (lsm_write codeunit_cmp 4 ''d'' ''4'' st)) =
        [\<lparr>entry_key = ''a'', entry_value = ''2'', entry_timestamp = 2\<rparr>,
         \<lparr>entry_key = ''b'', entry_value = ''3'', entry_timestamp = 3\<rparr>,
         \<lparr>entry_key = ''c'', entry_value = ''1'', entry_timestamp = 1\<rparr>,
         \<lparr>entry_key = ''d'', entry_value = ''4'', entry_timestamp = 4\<rparr>]"
    by (simp add: st_def lsm_run_def lsm_init_def lsm_write_def js_sort_def by_key_def Let_def)
  then have h: "MAX_MEMTABLE_SIZE \<le> length (memtable (fst (lsm_write codeunit_cmp 4 ''d'' ''4'' st)))"
    by (simp add: MAX_MEMTABLE_SIZE_def)
  from full_memtable_is_flushed[OF h] m h show ?thesis
    unfolding st_def by simp
qed

text \<open>
  Claim C6 fails on the sample-data button. The array the flush writes is the memtable of
  the write that set the timer, 500 ms earlier; the memtable it empties is the one of the
  moment.
  One click on Load Sample Data in the empty widget (a write every 400 ms) shows the
  difference. After the fifth write the memtable holds five entries. The sixth timer is
  the flush set by the fourth write: the table it creates holds four of the five entries,
  and the memtable is emptied. The seventh timer writes user:1 = Alicia into the empty
  memtable. The eighth timer is the flush set by the fifth write: the table it creates
  holds user:1 = Alice, not the memtable's entry, and the memtable is emptied. When all
  twelve timers have run, user:1 = Alicia is in no table and not in the memtable.
\<close>

theorem load_sample_flush_is_not_the_memtable:
  "lsm_view (fst (load_once 5)) =
     ([(''order:1'', ''Pizza''), (''order:2'', ''Burger''), (''user:1'', ''Alice''),
       (''user:2'', ''Bob''), (''user:3'', ''Charlie'')], []) \<and>
   map fst (snd (load_once 5)) = [1700, 2000, 2100, 2400, 2800] \<and>
   lsm_view (fst (load_once 6)) =
     ([], [(0, [(''order:1'', ''Pizza''), (''user:1'', ''Alice''), (''user:2'', ''Bob''),
                (''user:3'', ''Charlie'')])]) \<and>
   lsm_view (fst (load_once 7)) =
     ([(''user:1'', ''Alicia'')],
      [(0, [(''order:1'', ''Pizza''), (''user:1'', ''Alice''), (''user:2'', ''Bob''),
            (''user:3'', ''Charlie'')])]) \<and>
   lsm_view (fst (load_once 8)) =
     ([], [(0, [(''order:1'', ''Pizza''), (''user:1'', ''Alice''), (''user:2'', ''Bob''),
                (''user:3'', ''Charlie'')]),
           (0, [(''order:1'', ''Pizza''), (''order:2'', ''Burger''), (''user:1'', ''Alice''),
                (''user:2'', ''Bob''), (''user:3'', ''Charlie'')])]) \<and>
   lsm_view (fst (load_once 12)) =
     ([(''order:3'', ''Sushi''), (''user:4'', ''Diana'')],
      [(1, [(''order:1'', ''Pizza''), (''order:2'', ''Burger''), (''user:1'', ''Alice''),
            (''user:2'', ''Bob''), (''user:3'', ''Charlie'')])]) \<and>
   snd (load_once 12) = []"
proof -
  have a: "lsm_view (fst (load_once 5)) =
     ([(''order:1'', ''Pizza''), (''order:2'', ''Burger''), (''user:1'', ''Alice''),
       (''user:2'', ''Bob''), (''user:3'', ''Charlie'')], [])"
    by code_simp
  have b: "map fst (snd (load_once 5)) = [1700, 2000, 2100, 2400, 2800]"
    by code_simp
  have c: "lsm_view (fst (load_once 6)) =
     ([], [(0, [(''order:1'', ''Pizza''), (''user:1'', ''Alice''), (''user:2'', ''Bob''),
                (''user:3'', ''Charlie'')])])"
    by code_simp
  have d: "lsm_view (fst (load_once 7)) =
     ([(''user:1'', ''Alicia'')],
      [(0, [(''order:1'', ''Pizza''), (''user:1'', ''Alice''), (''user:2'', ''Bob''),
            (''user:3'', ''Charlie'')])])"
    by code_simp
  have e: "lsm_view (fst (load_once 8)) =
     ([], [(0, [(''order:1'', ''Pizza''), (''user:1'', ''Alice''), (''user:2'', ''Bob''),
                (''user:3'', ''Charlie'')]),
           (0, [(''order:1'', ''Pizza''), (''order:2'', ''Burger''), (''user:1'', ''Alice''),
                (''user:2'', ''Bob''), (''user:3'', ''Charlie'')])])"
    by code_simp
  have f: "lsm_view (fst (load_once 12)) =
     ([(''order:3'', ''Sushi''), (''user:4'', ''Diana'')],
      [(1, [(''order:1'', ''Pizza''), (''order:2'', ''Burger''), (''user:1'', ''Alice''),
            (''user:2'', ''Bob''), (''user:3'', ''Charlie'')])])"
    by code_simp
  have g: "snd (load_once 12) = []"
    by code_simp
  from a b c d e f g show ?thesis by (intro conjI)
qed

section \<open>LSM tree: compaction\<close>

lemma latest_per_key_fold:
  assumes "sorted_wrt (\<lambda>a b. entry_timestamp a \<le> entry_timestamp b) xs"
  shows "latest_per_key xs (fold (\<lambda>e m. AList.update (entry_key e) e m) xs [])"
  using assms
proof (induction xs rule: rev_induct)
  case Nil
  then show ?case by (simp add: latest_per_key_def)
next
  case (snoc x xs)
  define al where "al = fold (\<lambda>e m. AList.update (entry_key e) e m) xs []"
  from snoc.prems have sx: "sorted_wrt (\<lambda>a b. entry_timestamp a \<le> entry_timestamp b) xs"
    and le: "\<forall>e'\<in>set xs. entry_timestamp e' \<le> entry_timestamp x"
    by (auto simp: sorted_wrt_append)
  from snoc.IH[OF sx] have ih: "latest_per_key xs al" by (simp add: al_def)
  have step: "fold (\<lambda>e m. AList.update (entry_key e) e m) (xs @ [x]) [] = AList.update (entry_key x) x al"
    by (simp add: al_def)
  have d: "distinct (map fst (AList.update (entry_key x) x al))"
    using ih by (simp add: latest_per_key_def distinct_update)
  have dom: "fst ` set (AList.update (entry_key x) x al) = entry_key ` set (xs @ [x])"
    using ih by (auto simp: latest_per_key_def dom_update)
  have vals: "entry_key e = k \<and> e \<in> set (xs @ [x]) \<and>
        (\<forall>e'\<in>set (xs @ [x]). entry_key e' = k \<longrightarrow> entry_timestamp e' \<le> entry_timestamp e)"
    if m: "map_of (AList.update (entry_key x) x al) k = Some e" for k e
  proof (cases "k = entry_key x")
    case True
    with m have "e = x" by (simp add: update_conv')
    with True le show ?thesis by auto
  next
    case False
    with m have "map_of al k = Some e" by (simp add: update_conv')
    with ih have "entry_key e = k" "e \<in> set xs"
      "\<forall>e'\<in>set xs. entry_key e' = k \<longrightarrow> entry_timestamp e' \<le> entry_timestamp e"
      unfolding latest_per_key_def by blast+
    with False show ?thesis by auto
  qed
  show ?case unfolding step latest_per_key_def using d dom vals by blast
qed

lemma latest_per_key_values:
  assumes "latest_per_key xs al"
  shows "map entry_key (map snd al) = map fst al"
    and "\<And>e. e \<in> set (map snd al) \<Longrightarrow> e \<in> set xs \<and>
          (\<forall>e'\<in>set xs. entry_key e' = entry_key e \<longrightarrow> entry_timestamp e' \<le> entry_timestamp e)"
proof -
  from assms have d: "distinct (map fst al)" by (simp add: latest_per_key_def)
  have pair: "entry_key e = k \<and> e \<in> set xs \<and>
        (\<forall>e'\<in>set xs. entry_key e' = k \<longrightarrow> entry_timestamp e' \<le> entry_timestamp e)"
    if "(k, e) \<in> set al" for k e
  proof -
    from that d have "map_of al k = Some e" by simp
    with assms show ?thesis unfolding latest_per_key_def by blast
  qed
  show "map entry_key (map snd al) = map fst al"
    using pair by (auto simp: map_eq_conv)
  show "e \<in> set xs \<and>
          (\<forall>e'\<in>set xs. entry_key e' = entry_key e \<longrightarrow> entry_timestamp e' \<le> entry_timestamp e)"
    if "e \<in> set (map snd al)" for e
  proof -
    from that obtain k where "(k, e) \<in> set al" by auto
    from pair[OF this] show ?thesis by blast
  qed
qed

lemma merge_entries_props:
  fixes ts :: "SSTable list"
  defines "allEntries \<equiv> concat (map sst_entries ts)"
  shows "distinct (map entry_key (merge_entries lc ts))"
    and "set (merge_entries lc ts) \<subseteq> set allEntries"
    and "entry_key ` set (merge_entries lc ts) = entry_key ` set allEntries"
    and "\<And>e e'. e \<in> set (merge_entries lc ts) \<Longrightarrow> e' \<in> set allEntries \<Longrightarrow>
           entry_key e' = entry_key e \<Longrightarrow> entry_timestamp e' \<le> entry_timestamp e"
    and "consistent_cmp lc \<Longrightarrow>
           sorted_wrt (\<lambda>a b. lc (entry_key a) (entry_key b) \<le> 0) (merge_entries lc ts)"
proof -
  define xs where "xs = js_sort by_timestamp allEntries"
  define al where "al = fold (\<lambda>e m. AList.update (entry_key e) e m) xs []"
  have m: "merge_entries lc ts = js_sort (by_key lc) (map snd al)"
    by (simp add: merge_entries_def Let_def al_def xs_def allEntries_def)
  have "sorted_wrt (\<lambda>a b. by_timestamp a b \<le> 0) xs"
    unfolding xs_def by (rule sorted_js_sort[OF by_timestamp_consistent])
  then have "sorted_wrt (\<lambda>a b. entry_timestamp a \<le> entry_timestamp b) xs"
    by (simp add: by_timestamp_def)
  from latest_per_key_fold[OF this] have lp: "latest_per_key xs al" by (simp add: al_def)
  have sx: "set xs = set allEntries" by (simp add: xs_def set_js_sort)
  note v = latest_per_key_values[OF lp]
  from lp have d: "distinct (map fst al)" and dom: "fst ` set al = entry_key ` set xs"
    by (simp_all add: latest_per_key_def)
  show "distinct (map entry_key (merge_entries lc ts))"
    unfolding m distinct_map_js_sort v(1) by (rule d)
  show "set (merge_entries lc ts) \<subseteq> set allEntries"
    unfolding m set_js_sort using v(2) sx by blast
  have "entry_key ` set (map snd al) = set (map entry_key (map snd al))"
    by (simp only: set_map)
  also have "\<dots> = fst ` set al" unfolding v(1) by simp
  finally show "entry_key ` set (merge_entries lc ts) = entry_key ` set allEntries"
    unfolding m set_js_sort using dom sx by simp
  show "entry_timestamp e' \<le> entry_timestamp e"
    if "e \<in> set (merge_entries lc ts)" "e' \<in> set allEntries" "entry_key e' = entry_key e" for e e'
    using that v(2)[of e] sx unfolding m set_js_sort by blast
  show "sorted_wrt (\<lambda>a b. lc (entry_key a) (entry_key b) \<le> 0) (merge_entries lc ts)"
    if "consistent_cmp lc"
  proof -
    have "sorted_wrt (\<lambda>a b. by_key lc a b \<le> 0) (merge_entries lc ts)"
      unfolding m by (rule sorted_js_sort[OF by_key_consistent[OF that]])
    then show ?thesis by (simp add: by_key_def)
  qed
qed


text \<open>
  What \<^verbatim>\<open>compact\<close> does with the array it is called with. When that array holds at least
  the maximum number of tables for the level, the new state is the tables of the array at
  the other levels, unchanged and in order, followed by one new table at the next level.
  Its entries come from the compacted tables, cover every key of them once, carry for each
  key a timestamp no older than any compacted entry under that key, and are in ascending
  order of the (consistent) collation.
\<close>

lemma compact_merges_level:
  assumes "consistent_cmp localeCompare"
    and "length (filter (\<lambda>t. sst_level t = level) tables) \<ge> getMaxTablesAtLevel level"
  shows "\<exists>new.
     sstables (fst (compact localeCompare now level tables st)) =
       filter (\<lambda>t. sst_level t \<noteq> level) tables @ [new] \<and>
     sst_level new = level + 1 \<and>
     set (sst_entries new) \<subseteq> (\<Union>t\<in>{t \<in> set tables. sst_level t = level}. set (sst_entries t)) \<and>
     entry_key ` set (sst_entries new) =
       entry_key ` (\<Union>t\<in>{t \<in> set tables. sst_level t = level}. set (sst_entries t)) \<and>
     distinct (map entry_key (sst_entries new)) \<and>
     (\<forall>e\<in>set (sst_entries new).
        \<forall>e'\<in>(\<Union>t\<in>{t \<in> set tables. sst_level t = level}. set (sst_entries t)).
          entry_key e' = entry_key e \<longrightarrow> entry_timestamp e' \<le> entry_timestamp e) \<and>
     sorted_wrt (\<lambda>a b. localeCompare (entry_key a) (entry_key b) \<le> 0) (sst_entries new)"
proof -
  define atLevel where "atLevel = filter (\<lambda>t. sst_level t = level) tables"
  define merged where "merged = merge_entries localeCompare atLevel"
  define new where "new = \<lparr>sst_id = (''sstable-'', now), sst_level = level + 1,
     sst_entries = merged, sst_size = length merged,
     sst_minKey = first_key merged, sst_maxKey = last_key merged\<rparr>"
  have all: "set (concat (map sst_entries atLevel)) =
      (\<Union>t\<in>{t \<in> set tables. sst_level t = level}. set (sst_entries t))"
    by (auto simp: atLevel_def)
  from assms(2) have "\<not> length atLevel < (if level = 0 then 2 else getMaxTablesAtLevel level)"
    by (auto simp: atLevel_def getMaxTablesAtLevel_def)
  then have res: "sstables (fst (compact localeCompare now level tables st)) =
       filter (\<lambda>t. sst_level t \<noteq> level) tables @ [new]"
    by (simp add: compact_def Let_def atLevel_def new_def merged_def)
  have lv: "sst_level new = level + 1" and en: "sst_entries new = merged"
    by (simp_all add: new_def)
  note p = merge_entries_props[where lc=localeCompare and ts=atLevel, folded merged_def, unfolded all]
  from p(4) have ts: "\<forall>e\<in>set merged.
        \<forall>e'\<in>(\<Union>t\<in>{t \<in> set tables. sst_level t = level}. set (sst_entries t)).
          entry_key e' = entry_key e \<longrightarrow> entry_timestamp e' \<le> entry_timestamp e"
    by blast
  from res lv p(1) p(2) p(3) ts p(5)[OF assms(1)] show ?thesis
    unfolding en[symmetric] by blast
qed

lemma demo_compact:
  "sstables (fst (compact codeunit_cmp 30 0 demo_tables lsm_init)) =
    [\<lparr>sst_id = (''sstable-'', 11), sst_level = 1,
      sst_entries = [\<lparr>entry_key = ''z'', entry_value = ''0'', entry_timestamp = 0\<rparr>],
      sst_size = 1, sst_minKey = ''z'', sst_maxKey = ''z''\<rparr>,
     \<lparr>sst_id = (''sstable-'', 30), sst_level = 1,
      sst_entries = [\<lparr>entry_key = ''a'', entry_value = ''3'', entry_timestamp = 3\<rparr>,
                     \<lparr>entry_key = ''b'', entry_value = ''4'', entry_timestamp = 4\<rparr>,
                     \<lparr>entry_key = ''c'', entry_value = ''2'', entry_timestamp = 2\<rparr>],
      sst_size = 3, sst_minKey = ''a'', sst_maxKey = ''c''\<rparr>]"
  by (simp add: compact_def demo_tables_def merge_entries_def js_sort_def by_timestamp_def
      by_key_def first_key_def last_key_def Let_def)

lemma compact_merges_level_witness:
  "consistent_cmp codeunit_cmp \<and>
   getMaxTablesAtLevel 0 \<le> length (filter (\<lambda>t. sst_level t = 0) demo_tables) \<and>
   (\<exists>new. sstables (fst (compact codeunit_cmp 30 0 demo_tables lsm_init)) =
       filter (\<lambda>t. sst_level t \<noteq> 0) demo_tables @ [new] \<and>
     sst_level new = 1 \<and>
     map entry_key (sst_entries new) = [''a'', ''b'', ''c''] \<and>
     map entry_timestamp (sst_entries new) = [3, 4, 2])"
proof -
  have c: "consistent_cmp codeunit_cmp" by (rule codeunit_cmp_consistent)
  have h: "getMaxTablesAtLevel 0 \<le> length (filter (\<lambda>t. sst_level t = 0) demo_tables)"
    by (simp add: getMaxTablesAtLevel_def demo_tables_def)
  from compact_merges_level[OF c h, of 30 lsm_init] obtain new where
    nl: "sstables (fst (compact codeunit_cmp 30 0 demo_tables lsm_init)) =
       filter (\<lambda>t. sst_level t \<noteq> 0) demo_tables @ [new] \<and> sst_level new = 0 + 1"
    by (elim exE conjE) (rule that, intro conjI)
  then have n: "sstables (fst (compact codeunit_cmp 30 0 demo_tables lsm_init)) =
       filter (\<lambda>t. sst_level t \<noteq> 0) demo_tables @ [new]" and l1: "sst_level new = 1"
    by simp_all
  have f: "filter (\<lambda>t. sst_level t \<noteq> 0) demo_tables =
     [\<lparr>sst_id = (''sstable-'', 11), sst_level = 1,
      sst_entries = [\<lparr>entry_key = ''z'', entry_value = ''0'', entry_timestamp = 0\<rparr>],
      sst_size = 1, sst_minKey = ''z'', sst_maxKey = ''z''\<rparr>]"
    by (simp add: demo_tables_def)
  from n[unfolded demo_compact f] have new: "new = \<lparr>sst_id = (''sstable-'', 30), sst_level = 1,
      sst_entries = [\<lparr>entry_key = ''a'', entry_value = ''3'', entry_timestamp = 3\<rparr>,
                     \<lparr>entry_key = ''b'', entry_value = ''4'', entry_timestamp = 4\<rparr>,
                     \<lparr>entry_key = ''c'', entry_value = ''2'', entry_timestamp = 2\<rparr>],
      sst_size = 3, sst_minKey = ''a'', sst_maxKey = ''c''\<rparr>"
    by simp
  have k: "map entry_key (sst_entries new) = [''a'', ''b'', ''c'']"
    and t: "map entry_timestamp (sst_entries new) = [3, 4, 2]"
    unfolding new by simp_all
  have "sstables (fst (compact codeunit_cmp 30 0 demo_tables lsm_init)) =
       filter (\<lambda>t. sst_level t \<noteq> 0) demo_tables @ [new] \<and>
     sst_level new = 1 \<and>
     map entry_key (sst_entries new) = [''a'', ''b'', ''c''] \<and>
     map entry_timestamp (sst_entries new) = [3, 4, 2]"
    using n l1 k t by (intro conjI)
  then have "\<exists>new. sstables (fst (compact codeunit_cmp 30 0 demo_tables lsm_init)) =
       filter (\<lambda>t. sst_level t \<noteq> 0) demo_tables @ [new] \<and>
     sst_level new = 1 \<and>
     map entry_key (sst_entries new) = [''a'', ''b'', ''c''] \<and>
     map entry_timestamp (sst_entries new) = [3, 4, 2]"
    by (rule exI)
  with c h show ?thesis by (intro conjI)
qed

text \<open>
  Claim C2 fails when the sample data is loaded twice. The array \<^verbatim>\<open>compact\<close> works on
  is the list of tables of the flush that set the timer, 500 ms earlier, and its result
  replaces the list of the moment. Click Load Sample Data in the empty widget, and again 200 ms later. When
  sixteen timers have run there are three tables at level 0, and the next timer is the
  compaction of level 0 on the first two of them. It leaves one table at level 1 with the
  entries of these two: the third table of level 0 is gone without being merged, and its
  entry order:2 is in no table. Two timers later the compaction of level 0 set by the
  third flush runs on the three tables of before: the table at level 1, which is not at
  the level compacted, is removed and replaced by the merge of the three.
\<close>

theorem overlapping_loads_compaction_ignores_current_tables:
  "map table_view (sstables (fst (load_twice 16))) =
     [(0, [(''order:1'', ''Pizza''), (''user:1'', ''Alice''), (''user:2'', ''Bob''),
           (''user:3'', ''Charlie'')]),
      (0, [(''order:1'', ''Pizza''), (''user:1'', ''Alice''), (''user:2'', ''Bob''),
           (''user:3'', ''Charlie'')]),
      (0, [(''order:1'', ''Pizza''), (''order:2'', ''Burger''), (''user:1'', ''Alice''),
           (''user:2'', ''Bob''), (''user:3'', ''Charlie'')])] \<and>
   hd (snd (load_twice 16)) =
     (2400, CallTask (Compact 0 (take 2 (sstables (fst (load_twice 16)))))) \<and>
   map table_view (sstables (fst (load_twice 17))) =
     [(1, [(''order:1'', ''Pizza''), (''user:1'', ''Alice''), (''user:2'', ''Bob''),
           (''user:3'', ''Charlie'')])] \<and>
   map table_view (sstables (fst (load_twice 18))) =
     [(1, [(''order:1'', ''Pizza''), (''user:1'', ''Alice''), (''user:2'', ''Bob''),
           (''user:3'', ''Charlie'')])] \<and>
   hd (snd (load_twice 18)) = (2600, CallTask (Compact 0 (sstables (fst (load_twice 16))))) \<and>
   map table_view (sstables (fst (load_twice 19))) =
     [(1, [(''order:1'', ''Pizza''), (''order:2'', ''Burger''), (''user:1'', ''Alice''),
           (''user:2'', ''Bob''), (''user:3'', ''Charlie'')])]"
proof -
  have a: "map table_view (sstables (fst (load_twice 16))) =
     [(0, [(''order:1'', ''Pizza''), (''user:1'', ''Alice''), (''user:2'', ''Bob''),
           (''user:3'', ''Charlie'')]),
      (0, [(''order:1'', ''Pizza''), (''user:1'', ''Alice''), (''user:2'', ''Bob''),
           (''user:3'', ''Charlie'')]),
      (0, [(''order:1'', ''Pizza''), (''order:2'', ''Burger''), (''user:1'', ''Alice''),
           (''user:2'', ''Bob''), (''user:3'', ''Charlie'')])]"
    by code_simp
  have b: "hd (snd (load_twice 16)) =
     (2400, CallTask (Compact 0 (take 2 (sstables (fst (load_twice 16))))))"
    by code_simp
  have c: "map table_view (sstables (fst (load_twice 17))) =
     [(1, [(''order:1'', ''Pizza''), (''user:1'', ''Alice''), (''user:2'', ''Bob''),
           (''user:3'', ''Charlie'')])]"
    by code_simp
  have d: "map table_view (sstables (fst (load_twice 18))) =
     [(1, [(''order:1'', ''Pizza''), (''user:1'', ''Alice''), (''user:2'', ''Bob''),
           (''user:3'', ''Charlie'')])]"
    by code_simp
  have e: "hd (snd (load_twice 18)) = (2600, CallTask (Compact 0 (sstables (fst (load_twice 16)))))"
    by code_simp
  have f: "map table_view (sstables (fst (load_twice 19))) =
     [(1, [(''order:1'', ''Pizza''), (''order:2'', ''Burger''), (''user:1'', ''Alice''),
           (''user:2'', ''Bob''), (''user:3'', ''Charlie'')])]"
    by code_simp
  from a b c d e f show ?thesis by (intro conjI)
qed

section \<open>B+ tree: what an insert preserves\<close>

lemma findIndex_bounds: "findIndex P xs = - 1 \<or> (0 \<le> findIndex P xs \<and> findIndex P xs < int (length xs))"
  by (induction xs) (auto simp: Let_def)

lemma child_index_le: "child_index ks key \<le> length ks"
  using findIndex_bounds[of "\<lambda>k. key < k" ks] by (auto simp: child_index_def Let_def)

lemma length_splice_in: "length (splice_in i x xs) = Suc (length xs)"
  by (simp add: splice_in_def)

lemma set_splice_in: "set (splice_in i x xs) = insert x (set xs)"
proof -
  have "set (take i xs) \<union> set (drop i xs) = set xs"
    by (metis append_take_drop_id set_append)
  then show ?thesis by (auto simp: splice_in_def)
qed

lemma list_all_update:
  "list_all P xs \<Longrightarrow> P x \<Longrightarrow> list_all P (xs[i := x])"
  by (metis insertE list_all_iff set_update_subset_insert subsetD)

lemma list_all_splice_in:
  "list_all P xs \<Longrightarrow> P x \<Longrightarrow> list_all P (splice_in i x xs)"
  by (simp add: list_all_iff set_splice_in)

lemma list_all_take: "list_all P xs \<Longrightarrow> list_all P (take n xs)"
  by (meson in_set_takeD list_all_iff)

lemma list_all_drop: "list_all P xs \<Longrightarrow> list_all P (drop n xs)"
  by (meson in_set_dropD list_all_iff)

lemma insertRecursive_leaf_fits:
  assumes "length ks < MAX_KEYS"
  shows "insertRecursive (BPlusNode ks cs True) key =
           Some (BPlusNode (js_sort numeric (ks @ [key])) cs True, None, None)"
  using assms by (simp add: insertRecursive.simps Let_def length_js_sort)

lemma insertRecursive_leaf_splits:
  assumes "length ks = MAX_KEYS"
  shows "insertRecursive (BPlusNode ks cs True) key =
           Some (BPlusNode (take 2 (js_sort numeric (ks @ [key]))) cs True,
                 Some (createLeafNode (drop 2 (js_sort numeric (ks @ [key])))),
                 Some (hd (drop 2 (js_sort numeric (ks @ [key])))))"
proof -
  have len: "length (js_sort numeric (ks @ [key])) = 4"
    using assms by (simp add: length_js_sort MAX_KEYS_def)
  then have "drop 2 (js_sort numeric (ks @ [key])) \<noteq> []" by simp
  then have "drop 2 (js_sort numeric (ks @ [key])) ! 0 = hd (drop 2 (js_sort numeric (ks @ [key])))"
    by (simp add: hd_conv_nth)
  with len show ?thesis by (simp add: insertRecursive.simps Let_def MAX_KEYS_def)
qed


lemma insertRecursive_internal:
  assumes "child_index ks key < length cs"
  shows "insertRecursive (BPlusNode ks cs False) key =
     (case insertRecursive (cs ! child_index ks key) key of
        None \<Rightarrow> None
      | Some (child, Some newNode, Some promoted) \<Rightarrow>
          let newKeys = splice_in (child_index ks key) promoted ks;
              newChildren = splice_in (child_index ks key + 1) newNode (cs[child_index ks key := child])
          in if length newKeys \<le> MAX_KEYS
             then Some (BPlusNode newKeys newChildren False, None, None)
             else
               let mid = length newKeys div 2
               in Some (BPlusNode (take mid newKeys) (take (mid + 1) newChildren) False,
                        Some (createInternalNode (drop (mid + 1) newKeys) (drop (mid + 1) newChildren)),
                        Some (newKeys ! mid))
      | Some (child, _, _) \<Rightarrow> Some (BPlusNode ks (cs[child_index ks key := child]) False, None, None))"
  using assms
  by (subst insertRecursive.simps) (simp add: Let_def split: option.split prod.split)

lemma insertRecursive_inv:
  assumes "bp_inv h n"
  shows "\<exists>n'. bp_inv h n' \<and>
           (insertRecursive n key = Some (n', None, None) \<or>
            (\<exists>nn pk. insertRecursive n key = Some (n', Some nn, Some pk) \<and> bp_inv h nn))"
  using assms
proof (induction n key arbitrary: h rule: insertRecursive.induct)
  case (1 ks cs leaf key)
  from "1.prems" have lk: "length ks \<le> MAX_KEYS" by simp
  show ?case
  proof (cases leaf)
    case True
    with "1.prems" have h1: "h = 1" and cs: "cs = []" by simp_all
    from True have leaf_eq: "leaf = True" by simp
    show ?thesis
    proof (cases "length ks < MAX_KEYS")
      case fits: True
      have "bp_inv h (BPlusNode (js_sort numeric (ks @ [key])) cs True)"
        using fits h1 cs by (simp add: length_js_sort)
      with insertRecursive_leaf_fits[OF fits, of cs key] show ?thesis unfolding leaf_eq by blast
    next
      case False
      with lk have full: "length ks = MAX_KEYS" by simp
      then have len: "length (js_sort numeric (ks @ [key])) = 4"
        by (simp add: length_js_sort MAX_KEYS_def)
      have l: "bp_inv h (BPlusNode (take 2 (js_sort numeric (ks @ [key]))) cs True)"
        using h1 cs len by (simp add: MAX_KEYS_def)
      have r: "bp_inv h (createLeafNode (drop 2 (js_sort numeric (ks @ [key]))))"
        using h1 len by (simp add: MAX_KEYS_def createLeafNode_def)
      from insertRecursive_leaf_splits[OF full, of cs key] l r show ?thesis unfolding leaf_eq by blast
    qed
  next
    case False
    define i where "i = child_index ks key"
    from "1.prems" False have h: "1 < h" and lc: "length cs = Suc (length ks)"
      and ch: "list_all (bp_inv (h - 1)) cs" by simp_all
    have ilt: "i < length cs" using child_index_le[of ks key] lc by (simp add: i_def)
    then have "bp_inv (h - 1) (cs ! i)" using ch by (simp add: list_all_length)
    from "1.IH"[OF False i_def ilt this]
    obtain c' where c': "bp_inv (h - 1) c'"
      and alt: "insertRecursive (cs ! i) key = Some (c', None, None) \<or>
            (\<exists>nn pk. insertRecursive (cs ! i) key = Some (c', Some nn, Some pk) \<and> bp_inv (h - 1) nn)"
      by blast
    have upd: "list_all (bp_inv (h - 1)) (cs[i := c'])"
      using ch c' by (rule list_all_update)
    note step = insertRecursive_internal[OF ilt[unfolded i_def], folded i_def]
    from False have leaf_eq: "leaf = False" by simp
    from alt show ?thesis
    proof
      assume a: "insertRecursive (cs ! i) key = Some (c', None, None)"
      have "bp_inv h (BPlusNode ks (cs[i := c']) False)"
        using lk h lc upd by simp
      moreover have "insertRecursive (BPlusNode ks cs False) key =
          Some (BPlusNode ks (cs[i := c']) False, None, None)"
        unfolding step a by simp
      ultimately show ?thesis unfolding leaf_eq by blast
    next
      assume "\<exists>nn pk. insertRecursive (cs ! i) key = Some (c', Some nn, Some pk) \<and> bp_inv (h - 1) nn"
      then obtain nn pk where a: "insertRecursive (cs ! i) key = Some (c', Some nn, Some pk)"
        and nn: "bp_inv (h - 1) nn" by blast
      define newKeys where "newKeys = splice_in i pk ks"
      define newChildren where "newChildren = splice_in (i + 1) nn (cs[i := c'])"
      have lnk: "length newKeys = Suc (length ks)" by (simp add: newKeys_def length_splice_in)
      have lnc: "length newChildren = Suc (Suc (length ks))"
        by (simp add: newChildren_def length_splice_in lc)
      have anc: "list_all (bp_inv (h - 1)) newChildren"
        unfolding newChildren_def using upd nn by (rule list_all_splice_in)
      show ?thesis
      proof (cases "length newKeys \<le> MAX_KEYS")
        case fits: True
        have "bp_inv h (BPlusNode newKeys newChildren False)"
          using fits h lnk lnc anc by simp
        moreover have "insertRecursive (BPlusNode ks cs False) key =
            Some (BPlusNode newKeys newChildren False, None, None)"
          unfolding step a using fits by (simp add: newKeys_def newChildren_def Let_def)
        ultimately show ?thesis unfolding leaf_eq by blast
      next
        case over: False
        with lk lnk have four: "length newKeys = 4" by (simp add: MAX_KEYS_def)
        then have five: "length newChildren = 5" using lnk lnc by simp
        have l: "bp_inv h (BPlusNode (take 2 newKeys) (take 3 newChildren) False)"
          using h four five anc by (simp add: MAX_KEYS_def list_all_take)
        have r: "bp_inv h (createInternalNode (drop 3 newKeys) (drop 3 newChildren))"
          using h four five anc by (simp add: MAX_KEYS_def createInternalNode_def list_all_drop)
        have "insertRecursive (BPlusNode ks cs False) key =
            Some (BPlusNode (take 2 newKeys) (take 3 newChildren) False,
                  Some (createInternalNode (drop 3 newKeys) (drop 3 newChildren)),
                  Some (newKeys ! 2))"
          unfolding step a using over four
          by (simp add: newKeys_def newChildren_def Let_def)
        with l r show ?thesis unfolding leaf_eq by blast
      qed
    qed
  qed
qed


lemma cloneNode_id: "cloneNode n = n"
proof (induction n)
  case (BPlusNode ks cs leaf)
  then have "map cloneNode cs = cs" by (simp add: map_idI)
  then show ?case by simp
qed

lemma fold_js_max_const:
  assumes "\<forall>x\<in>set xs. x = Num a" and "acc = NegInfinity \<or> acc = Num a"
  shows "fold js_max xs acc = (if xs = [] then acc else Num a)"
  using assms by (induction xs arbitrary: acc) auto

lemma Math_max_const:
  "xs \<noteq> [] \<Longrightarrow> \<forall>x\<in>set xs. x = Num a \<Longrightarrow> Math_max xs = Num a"
  by (simp add: Math_max_def fold_js_max_const)


lemma bp_inv_nodeDepth: "bp_inv h n \<Longrightarrow> nodeDepth n = Num (int h)"
proof (induction n arbitrary: h)
  case (BPlusNode ks cs leaf)
  show ?case
  proof (cases leaf)
    case True
    with BPlusNode.prems show ?thesis by simp
  next
    case False
    with BPlusNode.prems have h: "1 < h" and ne: "cs \<noteq> []"
      and ch: "list_all (bp_inv (h - 1)) cs" by auto
    with BPlusNode.IH have "\<forall>x\<in>set (map nodeDepth cs). x = Num (int (h - 1))"
      by (auto simp: list_all_iff)
    with ne have "Math_max (map nodeDepth cs) = Num (int (h - 1))"
      by (simp add: Math_max_const)
    with False h show ?thesis by simp
  qed
qed

lemma bp_inv_leaf_depths: "bp_inv h n \<Longrightarrow> set (leaf_depths n) = {h}"
proof (induction n arbitrary: h)
  case (BPlusNode ks cs leaf)
  show ?case
  proof (cases leaf)
    case True
    with BPlusNode.prems show ?thesis by simp
  next
    case False
    with BPlusNode.prems have h: "1 < h" and ne: "cs \<noteq> []"
      and ch: "list_all (bp_inv (h - 1)) cs" by auto
    with BPlusNode.IH have "\<forall>c\<in>set cs. set (leaf_depths c) = {h - 1}"
      by (auto simp: list_all_iff)
    with ne have "set (concat (map leaf_depths cs)) = {h - 1}"
      by (cases cs) auto
    then have "set (map Suc (concat (map leaf_depths cs))) = {Suc (h - 1)}"
      by (simp only: set_map) simp
    with False h show ?thesis by simp
  qed
qed


lemma insert_cloning_inv:
  assumes "bp_inv h prev"
  shows "(\<exists>n'. insert_cloning (Some prev) k = Inr (Some n') \<and> bp_inv h n' \<and>
            insertRecursive (cloneNode prev) k = Some (n', None, None)) \<or>
         (\<exists>n' nn pk. insert_cloning (Some prev) k = Inr (Some (createInternalNode [pk] [n', nn])) \<and>
            insertRecursive (cloneNode prev) k = Some (n', Some nn, Some pk) \<and>
            bp_inv h n' \<and> bp_inv h nn)"
proof -
  from insertRecursive_inv[OF assms, of k] obtain n' where n': "bp_inv h n'"
    and alt: "insertRecursive prev k = Some (n', None, None) \<or>
            (\<exists>nn pk. insertRecursive prev k = Some (n', Some nn, Some pk) \<and> bp_inv h nn)"
    by blast
  from alt show ?thesis
  proof
    assume a: "insertRecursive prev k = Some (n', None, None)"
    then have "insert_cloning (Some prev) k = Inr (Some n')"
      by (simp add: insert_cloning_def cloneNode_id)
    with a n' show ?thesis by (simp add: cloneNode_id)
  next
    assume "\<exists>nn pk. insertRecursive prev k = Some (n', Some nn, Some pk) \<and> bp_inv h nn"
    then obtain nn pk where a: "insertRecursive prev k = Some (n', Some nn, Some pk)"
      and nn: "bp_inv h nn" by blast
    from a have "insert_cloning (Some prev) k = Inr (Some (createInternalNode [pk] [n', nn]))"
      by (simp add: insert_cloning_def cloneNode_id)
    with a n' nn show ?thesis by (simp add: cloneNode_id)
  qed
qed

lemma bp_inv_new_root:
  "bp_inv h a \<Longrightarrow> bp_inv h b \<Longrightarrow> bp_inv (Suc h) (createInternalNode [pk] [a, b])"
  by (cases a) (auto simp: createInternalNode_def MAX_KEYS_def split: if_splits)

lemma insert_cloning_some:
  assumes "bp_inv h prev"
  shows "\<exists>t h'. insert_cloning (Some prev) k = Inr (Some t) \<and> bp_inv h' t"
  using insert_cloning_inv[OF assms, of k] bp_inv_new_root by blast

lemma inserts_cloning_some:
  assumes "bp_inv h prev"
  shows "\<exists>t h'. inserts_cloning (Some prev) ks = Inr (Some t) \<and> bp_inv h' t"
  using assms
proof (induction ks arbitrary: prev h)
  case Nil
  then show ?case by auto
next
  case (Cons k ks)
  from insert_cloning_some[OF Cons.prems, of k] obtain t h'
    where t: "insert_cloning (Some prev) k = Inr (Some t)" and i: "bp_inv h' t" by blast
  from Cons.IH[OF i] t show ?case by simp
qed

lemma inserts_cloning_reach:
  "\<exists>t h. inserts_cloning None (k0 # ks) = Inr (Some t) \<and> bp_inv h t"
proof -
  have "bp_inv 1 (createLeafNode [k0])" by (simp add: createLeafNode_def MAX_KEYS_def)
  from inserts_cloning_some[OF this, of ks] show ?thesis
    by (simp add: insert_cloning_def)
qed

lemma inserts_cloning_snoc:
  "inserts_cloning r (ks @ [k]) =
     (case inserts_cloning r ks of Inl e \<Rightarrow> Inl e | Inr r' \<Rightarrow> insert_cloning r' k)"
  by (induction ks arbitrary: r) (auto split: sum.splits)

lemma inserts_mutating_eq_cloning: "inserts_mutating r ks = inserts_cloning r ks"
proof (induction ks arbitrary: r)
  case Nil
  then show ?case by simp
next
  case (Cons k ks)
  have "(case insert_mutating r k of Inl e \<Rightarrow> Inl e | Inr (c, r') \<Rightarrow> Inr r') = insert_cloning r k"
    by (auto simp: insert_mutating_def insert_cloning_def cloneNode_id
        split: option.splits prod.splits)
  with Cons.IH show ?case by (auto split: sum.splits prod.splits)
qed


section \<open>B+ tree: the claims\<close>

text \<open>
  Claim C1. Inserting 10, 20, 5, 15 in this order into the empty tree, one call after the
  other, gives in both components the root with the single key 15 and the two children
  [5, 10] and [15, 20], both leaves.
\<close>

theorem sample_insert_10_20_5_15:
  "inserts_cloning None [10, 20, 5, 15] =
     Inr (Some (BPlusNode [15] [BPlusNode [5, 10] [] True, BPlusNode [15, 20] [] True] False)) \<and>
   inserts_mutating None [10, 20, 5, 15] =
     Inr (Some (BPlusNode [15] [BPlusNode [5, 10] [] True, BPlusNode [15, 20] [] True] False))"
  by (simp add: insert_cloning_def insert_mutating_def insertRecursive.simps createLeafNode_def
      createInternalNode_def js_sort_def numeric_def MAX_KEYS_def Let_def)



text \<open>
  Claim C7. In every tree a run of inserts from the empty tree builds, all leaves are at one
  depth, which is the depth \<^verbatim>\<open>getTreeDepth\<close> computes. One more insert keeps that depth, or
  adds one to it; then the root is a new internal node with two children of the old depth,
  the first of them the old root as the insert left it.
\<close>

theorem leaves_share_depth:
  "\<exists>prev next h.
     inserts_cloning None (k0 # ks) = Inr (Some prev) \<and>
     inserts_cloning None (k0 # ks @ [k]) = Inr (Some next) \<and>
     insert_cloning (Some prev) k = Inr (Some next) \<and>
     set (leaf_depths prev) = {h} \<and> getTreeDepth (Some prev) = Num (int h) \<and>
     ((set (leaf_depths next) = {h} \<and> getTreeDepth (Some next) = Num (int h)) \<or>
      (set (leaf_depths next) = {Suc h} \<and> getTreeDepth (Some next) = Num (int h + 1) \<and>
       (\<exists>old new pk. next = createInternalNode [pk] [old, new] \<and>
          insertRecursive (cloneNode prev) k = Some (old, Some new, Some pk) \<and>
          getTreeDepth (Some old) = Num (int h) \<and> getTreeDepth (Some new) = Num (int h))))"
proof -
  from inserts_cloning_reach[of k0 ks] obtain prev h
    where p: "inserts_cloning None (k0 # ks) = Inr (Some prev)" and i: "bp_inv h prev" by blast
  have dp: "set (leaf_depths prev) = {h}" "getTreeDepth (Some prev) = Num (int h)"
    using i by (simp_all add: bp_inv_leaf_depths bp_inv_nodeDepth getTreeDepth_def)
  have snoc: "inserts_cloning None (k0 # ks @ [k]) = insert_cloning (Some prev) k"
    using inserts_cloning_snoc[of None "k0 # ks" k] p by simp
  from insert_cloning_inv[OF i, of k] show ?thesis
  proof
    assume "\<exists>n'. insert_cloning (Some prev) k = Inr (Some n') \<and> bp_inv h n' \<and>
            insertRecursive (cloneNode prev) k = Some (n', None, None)"
    then obtain n' where n: "insert_cloning (Some prev) k = Inr (Some n')" and i': "bp_inv h n'"
      by blast
    have "set (leaf_depths n') = {h}" "getTreeDepth (Some n') = Num (int h)"
      using i' by (simp_all add: bp_inv_leaf_depths bp_inv_nodeDepth getTreeDepth_def)
    with p snoc n dp show ?thesis
      by (intro exI[of _ prev] exI[of _ n'] exI[of _ h]) simp
  next
    assume "\<exists>n' nn pk. insert_cloning (Some prev) k = Inr (Some (createInternalNode [pk] [n', nn])) \<and>
            insertRecursive (cloneNode prev) k = Some (n', Some nn, Some pk) \<and>
            bp_inv h n' \<and> bp_inv h nn"
    then obtain n' nn pk where n: "insert_cloning (Some prev) k = Inr (Some (createInternalNode [pk] [n', nn]))"
      and r: "insertRecursive (cloneNode prev) k = Some (n', Some nn, Some pk)"
      and i1: "bp_inv h n'" and i2: "bp_inv h nn" by blast
    from bp_inv_new_root[OF i1 i2, of pk] have i3: "bp_inv (Suc h) (createInternalNode [pk] [n', nn])" .
    have d3: "set (leaf_depths (createInternalNode [pk] [n', nn])) = {Suc h}"
      "getTreeDepth (Some (createInternalNode [pk] [n', nn])) = Num (int h + 1)"
      using bp_inv_leaf_depths[OF i3] bp_inv_nodeDepth[OF i3] by (simp_all add: getTreeDepth_def)
    have d12: "getTreeDepth (Some n') = Num (int h)" "getTreeDepth (Some nn) = Num (int h)"
      using i1 i2 by (simp_all add: bp_inv_nodeDepth getTreeDepth_def)
    have "\<exists>old new pk'. createInternalNode [pk] [n', nn] = createInternalNode [pk'] [old, new] \<and>
          insertRecursive (cloneNode prev) k = Some (old, Some new, Some pk') \<and>
          getTreeDepth (Some old) = Num (int h) \<and> getTreeDepth (Some new) = Num (int h)"
      using r d12 by (intro exI[of _ n'] exI[of _ nn] exI[of _ pk]) simp
    with p snoc n dp d3 show ?thesis
      by (intro exI[of _ prev] exI[of _ "createInternalNode [pk] [n', nn]"] exI[of _ h]) simp
  qed
qed

text \<open>
  Claim C5 fails on the sample-data button. From the empty tree the cloning component
  builds the tree of the ten sample keys; the mutating component ends with the single leaf
  [18], because each of the ten calls sees the root of the render of the click, which is
  \<^verbatim>\<open>null\<close>. Issued one render at a time, the two components build the same tree
  (\<open>inserts_mutating_eq_cloning\<close>).
\<close>

theorem sample_data_versions_differ:
  "insertSampleData_cloning None =
     Inr (Some (BPlusNode [15, 25, 35]
        [BPlusNode [5, 10, 12] [] True, BPlusNode [15, 18, 20] [] True,
         BPlusNode [25, 30] [] True, BPlusNode [35, 40] [] True] False)) \<and>
   insertSampleData_mutating None = Inr (Some (BPlusNode [18] [] True))"
  by (simp add: insertSampleData_cloning_def insertSampleData_mutating_def samples_def
      insert_cloning_def insert_mutating_def insertRecursive.simps createLeafNode_def
      createInternalNode_def js_sort_def numeric_def MAX_KEYS_def Let_def child_index_def splice_in_def)

section \<open>Write-ahead log: the guard of writeData\<close>

lemma appendWal_pages: "dataPages (snd (appendWal cl now e st)) = dataPages st"
  by (simp add: appendWal_def Let_def)

lemma writeData_page_keys:
  "map page_key (dataPages (writeData cl now txnId k v st)) = map page_key (dataPages st)"
  by (auto simp: writeData_def appendWal_def Let_def comp_def split: option.splits)

lemma commitTransaction_page_keys:
  "map page_key (dataPages (commitTransaction cl now txnId st)) = map page_key (dataPages st)"
  by (simp add: commitTransaction_def appendWal_def Let_def comp_def)

lemma checkpoint_page_keys:
  "map page_key (dataPages (checkpoint cl now st)) = map page_key (dataPages st)"
  by (simp add: checkpoint_def appendWal_def Let_def comp_def)

lemma beginTransaction_page_keys:
  "map page_key (dataPages (snd (beginTransaction cl now st))) = map page_key (dataPages st)"
  by (simp add: beginTransaction_def appendWal_def Let_def)

text \<open>
  Claim C9. \<^verbatim>\<open>writeData\<close> looks the key up in the pages of its render. The operations
  never change the keys of the pages, so the render's pages and the current ones have the
  same keys; when no page has the key, the call returns the state as it was: the log, the
  pages, the transactions and the next LSN are unchanged.
\<close>

theorem writeData_unknown_key_no_effect:
  assumes "page_key ` set (dataPages cl) = page_key ` set (dataPages st)"
    and "k \<notin> page_key ` set (dataPages st)"
  shows "writeData cl now txnId k newValue st = st \<and>
         wal (writeData cl now txnId k newValue st) = wal st \<and>
         dataPages (writeData cl now txnId k newValue st) = dataPages st \<and>
         transactions (writeData cl now txnId k newValue st) = transactions st \<and>
         nextLsn (writeData cl now txnId k newValue st) = nextLsn st"
proof -
  from assms have "\<not> (\<exists>p. p \<in> set (dataPages cl) \<and> page_key p = k)" by auto
  then have "find (\<lambda>p. page_key p = k) (dataPages cl) = None"
    by (simp add: find_None_iff)
  then have "writeData cl now txnId k newValue st = st"
    by (simp add: writeData_def)
  then show ?thesis by simp
qed

theorem writeData_unknown_key_no_effect_witness:
  "page_key ` set (dataPages wal_init) = page_key ` set (dataPages (snd (beginTransaction wal_init 7 wal_init))) \<and>
   ''balance:Z'' \<notin> page_key ` set (dataPages (snd (beginTransaction wal_init 7 wal_init))) \<and>
   writeData wal_init 8 1 ''balance:Z'' ''1'' (snd (beginTransaction wal_init 7 wal_init)) =
     snd (beginTransaction wal_init 7 wal_init)"
proof -
  have p: "dataPages (snd (beginTransaction wal_init 7 wal_init)) = initialPages"
    by (simp add: beginTransaction_def appendWal_def wal_init_def Let_def)
  have a: "page_key ` set (dataPages wal_init) =
      page_key ` set (dataPages (snd (beginTransaction wal_init 7 wal_init)))"
    unfolding p by (simp add: wal_init_def)
  have b: "''balance:Z'' \<notin> page_key ` set (dataPages (snd (beginTransaction wal_init 7 wal_init)))"
    unfolding p by (simp add: initialPages_def)
  from writeData_unknown_key_no_effect[OF a b, of 8 1 "''1''"] a b show ?thesis
    by (intro conjI) simp_all
qed

section \<open>Write-ahead log: the demo and the recovery\<close>

lemma runDemo_first_click:
  "page_values (runDemo wal_init now wal_init) =
     [(''balance:A'', ''900''), (''balance:B'', ''400''), (''balance:C'', ''950'')] \<and>
   txn_statuses (runDemo wal_init now wal_init) = [(1, committed), (1, active)] \<and>
   map log_lsn (wal (runDemo wal_init now wal_init)) = [1, 1, 1, 1, 1, 1, 1, 1] \<and>
   checkpointLsn (runDemo wal_init now wal_init) = Some 1"
  by (simp add: runDemo_def demo_reset_def beginTransaction_def writeData_def commitTransaction_def
      checkpoint_def appendWal_def plain_entry_def wal_init_def initialPages_def
      page_values_def txn_statuses_def Let_def)

text \<open>
  Claim C3 fails on the widget's own scenario. On a freshly mounted widget, Run Demo and
  then Simulate Crash leave balance:B at 500, while the last committed write to it (by the
  first transaction) is 600; and the committed transaction ends marked aborted. All eight
  calls of the demo read the render of the click: both transactions get the id 1, every
  log entry the LSN 1, and the second write to balance:B records the old value 500.
\<close>

theorem demo_recovery_loses_committed_write:
  "page_values (simulateCrashRecovery (runDemo wal_init now wal_init) (runDemo wal_init now wal_init)) =
     [(''balance:A'', ''900''), (''balance:B'', ''500''), (''balance:C'', ''750'')] \<and>
   txn_statuses (simulateCrashRecovery (runDemo wal_init now wal_init) (runDemo wal_init now wal_init)) =
     [(1, aborted), (1, aborted)]"
  by (simp add: simulateCrashRecovery_def redo_entry_def undo_txn_def undo_op_def writeOps_def
      truthy_def runDemo_def demo_reset_def beginTransaction_def writeData_def
      commitTransaction_def checkpoint_def appendWal_def plain_entry_def wal_init_def
      initialPages_def page_values_def txn_statuses_def Let_def)

text \<open>
  With every call in a render that has seen the previous one, the same scenario recovers
  to what the claim says: the committed values of A and B, the initial value of C, the
  first transaction committed and the second aborted.
\<close>

lemma in_render_state:
  "in_render f \<lparr>wal = w, transactions = ts, dataPages = ps, nextLsn = l, nextTxnId = i,
       isRecovering = r, checkpointLsn = c\<rparr> =
   f \<lparr>wal = w, transactions = ts, dataPages = ps, nextLsn = l, nextTxnId = i,
       isRecovering = r, checkpointLsn = c\<rparr>
     \<lparr>wal = w, transactions = ts, dataPages = ps, nextLsn = l, nextTxnId = i,
       isRecovering = r, checkpointLsn = c\<rparr>"
  by (simp add: in_render_def)

lemma demo_fresh_state:
  "txn_statuses (demo_fresh now wal_init) = [(1, committed), (2, active)] \<and>
   map log_lsn (wal (demo_fresh now wal_init)) = [1, 2, 3, 4, 5, 6, 7, 8] \<and>
   checkpointLsn (demo_fresh now wal_init) = Some 5"
  by (simp add: in_render_state demo_fresh_def demo_reset_def beginTransaction_def writeData_def
      commitTransaction_def checkpoint_def appendWal_def plain_entry_def wal_init_def
      initialPages_def page_values_def txn_statuses_def Let_def)

lemma demo_fresh_recovers:
  "page_values (simulateCrashRecovery (demo_fresh now wal_init) (demo_fresh now wal_init)) =
     [(''balance:A'', ''900''), (''balance:B'', ''600''), (''balance:C'', ''750'')] \<and>
   txn_statuses (simulateCrashRecovery (demo_fresh now wal_init) (demo_fresh now wal_init)) =
     [(1, committed), (2, aborted)]"
  by (simp add: in_render_state simulateCrashRecovery_def redo_entry_def undo_txn_def undo_op_def writeOps_def
      truthy_def demo_fresh_def demo_reset_def beginTransaction_def writeData_def
      commitTransaction_def checkpoint_def appendWal_def plain_entry_def wal_init_def
      initialPages_def page_values_def txn_statuses_def Let_def)

section \<open>Theme colour checker: the exit code\<close>

subsection \<open>The script's helpers against the notions of the claim\<close>









subsection \<open>The matcher against the meaning of the expressions\<close>








subsection \<open>The walk of the files\<close>




subsection \<open>The exit code\<close>







end
